theory Spec2Isabelle
  imports Main "HOL-Library.Word"
begin

unbundle bit_operations_syntax

section \<open>shared.h: sizes, register map, interrupt bits\<close>

type_synonym u8 = "8 word"
type_synonym u16 = "16 word"
type_synonym u32 = "32 word"

definition TX_BUFFER_SIZE :: u32 where
  "TX_BUFFER_SIZE = 4096"

definition RX_BUFFER_SIZE :: u32 where
  "RX_BUFFER_SIZE = 4096"

definition TX_LOW_WATERMARK_THRESHOLD :: u32 where
  "TX_LOW_WATERMARK_THRESHOLD = TX_BUFFER_SIZE div 4"

definition RX_HIGH_WATERMARK_THRESHOLD :: u32 where
  "RX_HIGH_WATERMARK_THRESHOLD = RX_BUFFER_SIZE div 4"

definition PACKET_LENGTH_FIELD_SIZE :: u32 where
  "PACKET_LENGTH_FIELD_SIZE = 2"

definition CHIP_BASE_ADDR :: nat where
  "CHIP_BASE_ADDR = 0x50000000"

definition CHIP_REG_TX_TAIL_PTR :: nat where
  "CHIP_REG_TX_TAIL_PTR = CHIP_BASE_ADDR + 0x00"

definition CHIP_REG_RX_HEAD_PTR :: nat where
  "CHIP_REG_RX_HEAD_PTR = CHIP_BASE_ADDR + 0x04"

definition CHIP_REG_HOST_TX_HEAD_PUB :: nat where
  "CHIP_REG_HOST_TX_HEAD_PUB = CHIP_BASE_ADDR + 0x08"

definition CHIP_REG_HOST_RX_TAIL_PUB :: nat where
  "CHIP_REG_HOST_RX_TAIL_PUB = CHIP_BASE_ADDR + 0x0C"

definition CHIP_REG_INT_STATUS :: nat where
  "CHIP_REG_INT_STATUS = CHIP_BASE_ADDR + 0x10"

definition CHIP_REG_INT_CLEAR :: nat where
  "CHIP_REG_INT_CLEAR = CHIP_BASE_ADDR + 0x14"

definition CHIP_REG_INT_ENABLE :: nat where
  "CHIP_REG_INT_ENABLE = CHIP_BASE_ADDR + 0x18"

definition CHIP_INT_RX_DATA_READY_BIT :: u32 where
  "CHIP_INT_RX_DATA_READY_BIT = push_bit 0 1"

definition CHIP_INT_TX_SPACE_AVAIL_BIT :: u32 where
  "CHIP_INT_TX_SPACE_AVAIL_BIT = push_bit 1 1"

definition CHIP_INT_ERROR_BIT :: u32 where
  "CHIP_INT_ERROR_BIT = push_bit 2 1"

section \<open>Program state\<close>

text \<open>
  The shared RAM is the array \<open>simulated_shared_ram\<close> of host.c, addressed by its byte
  index; the TX ring is its first \<open>TX_BUFFER_SIZE\<close> bytes and the RX ring follows it
  (\<open>RX_BUFFER_START_ADDR = SHARED_RAM_BASE_ADDR + TX_BUFFER_SIZE\<close>). The registers are the
  array \<open>simulated_chip_registers\<close>, addressed by the index the bus macros compute. The four
  remaining fields are the file-static indices of host.c and chip_emulator.c.
\<close>

record state =
  ram :: "nat \<Rightarrow> u8"
  regs :: "nat \<Rightarrow> u32"
  host_tx_head :: u32
  host_rx_tail :: u32
  chip_tx_tail :: u32
  chip_rx_head :: u32

text \<open>An access outside \<open>simulated_shared_ram\<close> is undefined behaviour in C.\<close>

datatype fault = OutOfBounds

text \<open>The lines the program prints, one constructor for each \<open>printf\<close>.\<close>

datatype msg =
    HOST_TX_ERR_TooLarge u32
  | HOST_TX_ERR_NoSpace u32 u32
  | HOST_TX_Sent u32 u32
  | HOST_RX_ISR
  | HOST_TX_ISR
  | HOST_ERR_ISR u32
  | HOST_RX_NoHeader u32
  | HOST_RX_Partial u32 u32
  | HOST_RX_Received u16 u32 u8
  | HOST_RX_Finished u32
  | CHIP_EMU_Raised u32
  | CHIP_EMU_TX_Processing u16 u8
  | CHIP_EMU_RX_Generated u32 u32

definition TOTAL_SHARED_MEMORY_SIZE :: nat where
  "TOTAL_SHARED_MEMORY_SIZE = unat TX_BUFFER_SIZE + unat RX_BUFFER_SIZE"

definition tx_buffer_ptr :: nat where
  "tx_buffer_ptr = 0"

definition rx_buffer_ptr :: nat where
  "rx_buffer_ptr = unat TX_BUFFER_SIZE"

definition BUS_READ_REG :: "state \<Rightarrow> nat \<Rightarrow> u32" where
  "BUS_READ_REG s addr = regs s ((addr - CHIP_BASE_ADDR) div 4)"

definition BUS_WRITE_REG :: "state \<Rightarrow> nat \<Rightarrow> u32 \<Rightarrow> state" where
  "BUS_WRITE_REG s addr val = s\<lparr>regs := (regs s)((addr - CHIP_BASE_ADDR) div 4 := val)\<rparr>"

subsection \<open>Byte and halfword accesses, memcpy\<close>

definition load_u8 :: "(nat \<Rightarrow> u8) \<Rightarrow> nat \<Rightarrow> fault + u8" where
  "load_u8 m a = (if a < TOTAL_SHARED_MEMORY_SIZE then Inr (m a) else Inl OutOfBounds)"

text \<open>A 16-bit access through a \<open>uint16_t\<close> pointer, on a little-endian machine.\<close>

definition load_u16 :: "(nat \<Rightarrow> u8) \<Rightarrow> nat \<Rightarrow> fault + u16" where
  "load_u16 m a =
     (if a + 1 < TOTAL_SHARED_MEMORY_SIZE
      then Inr (ucast (m a) OR push_bit 8 (ucast (m (a + 1))))
      else Inl OutOfBounds)"

definition store_u16 :: "(nat \<Rightarrow> u8) \<Rightarrow> nat \<Rightarrow> u16 \<Rightarrow> fault + (nat \<Rightarrow> u8)" where
  "store_u16 m a v =
     (if a + 1 < TOTAL_SHARED_MEMORY_SIZE
      then Inr (m(a := ucast v, a + 1 := ucast (drop_bit 8 v)))
      else Inl OutOfBounds)"

text \<open>\<open>memcpy (ram + dst, src, n)\<close>: the source is the list of bytes the pointer reaches.\<close>

definition memcpy :: "(nat \<Rightarrow> u8) \<Rightarrow> nat \<Rightarrow> u8 list \<Rightarrow> nat \<Rightarrow> fault + (nat \<Rightarrow> u8)" where
  "memcpy m dst src n =
     (if dst + n \<le> TOTAL_SHARED_MEMORY_SIZE \<and> n \<le> length src
      then Inr (\<lambda>a. if dst \<le> a \<and> a < dst + n then src ! (a - dst) else m a)
      else Inl OutOfBounds)"

section \<open>host.c\<close>

definition host_chip_driver_init :: "state \<Rightarrow> state" where
  "host_chip_driver_init s =
     (let s1 = s\<lparr>host_tx_head := 0, host_rx_tail := 0\<rparr>;
          s2 = s1\<lparr>regs := (\<lambda>i. if i < 7 then 0 else regs s1 i)\<rparr>;
          s3 = BUS_WRITE_REG s2 CHIP_REG_INT_CLEAR 0xFFFFFFFF;
          s4 = BUS_WRITE_REG s3 CHIP_REG_HOST_TX_HEAD_PUB (host_tx_head s3);
          s5 = BUS_WRITE_REG s4 CHIP_REG_HOST_RX_TAIL_PUB (host_rx_tail s4)
      in BUS_WRITE_REG s5 CHIP_REG_INT_ENABLE
           (CHIP_INT_RX_DATA_READY_BIT OR CHIP_INT_TX_SPACE_AVAIL_BIT OR CHIP_INT_ERROR_BIT))"

text \<open>The free space \<open>host_chip_send_packet\<close> computes from its head and the peer's tail.\<close>

definition tx_space_available :: "u32 \<Rightarrow> u32 \<Rightarrow> u32" where
  "tx_space_available head tail =
     (if head \<ge> tail then TX_BUFFER_SIZE - (head - tail) - 1 else (tail - head) - 1)"

text \<open>The two \<open>memcpy\<close> branches of \<open>host_chip_send_packet\<close>.\<close>

definition tx_copy_payload :: "(nat \<Rightarrow> u8) \<Rightarrow> u32 \<Rightarrow> u8 list \<Rightarrow> u32 \<Rightarrow> fault + (nat \<Rightarrow> u8)" where
  "tx_copy_payload m current_offset data len =
     (if current_offset + len > TX_BUFFER_SIZE
      then let first_part_len = TX_BUFFER_SIZE - current_offset in
           (case memcpy m (tx_buffer_ptr + unat current_offset) data (unat first_part_len) of
              Inl f \<Rightarrow> Inl f
            | Inr m1 \<Rightarrow>
                memcpy m1 tx_buffer_ptr (drop (unat first_part_len) data)
                  (unat (len - first_part_len)))
      else memcpy m (tx_buffer_ptr + unat current_offset) data (unat len))"

text \<open>The result is the return value, the state and the output; a failed return leaves
  the state as it was.\<close>

definition host_chip_send_packet :: "state \<Rightarrow> u8 list \<Rightarrow> u32 \<Rightarrow> fault + (int \<times> state \<times> msg list)" where
  "host_chip_send_packet s data len =
     (let total_write_len = len + PACKET_LENGTH_FIELD_SIZE in
      if total_write_len > TX_BUFFER_SIZE
      then Inr (- 1, s, [HOST_TX_ERR_TooLarge total_write_len])
      else
        let chip_tx_tail = BUS_READ_REG s CHIP_REG_TX_TAIL_PTR;
            space_available = tx_space_available (host_tx_head s) chip_tx_tail
        in
        if space_available < total_write_len
        then Inr (- 2, s, [HOST_TX_ERR_NoSpace space_available total_write_len])
        else
          let len_header = (ucast len :: u16);
              current_offset = host_tx_head s
          in
          (case store_u16 (ram s) (tx_buffer_ptr + unat current_offset) len_header of
             Inl f \<Rightarrow> Inl f
           | Inr m1 \<Rightarrow>
               let current_offset = (current_offset + PACKET_LENGTH_FIELD_SIZE) mod TX_BUFFER_SIZE in
               (case tx_copy_payload m1 current_offset data len of
                  Inl f \<Rightarrow> Inl f
                | Inr m2 \<Rightarrow>
                    let head' = (host_tx_head s + total_write_len) mod TX_BUFFER_SIZE;
                        s1 = s\<lparr>ram := m2, host_tx_head := head'\<rparr>;
                        s2 = BUS_WRITE_REG s1 CHIP_REG_HOST_TX_HEAD_PUB (host_tx_head s1)
                    in Inr (0, s2, [HOST_TX_Sent len (host_tx_head s2)]))))"

text \<open>The bytes available to the reader, as both readers compute them.\<close>

definition rx_bytes_available :: "u32 \<Rightarrow> u32 \<Rightarrow> u32" where
  "rx_bytes_available head tail =
     (if head \<ge> tail then head - tail else RX_BUFFER_SIZE - tail + head)"

text \<open>The header read of \<open>host_chip_process_received_data\<close>: byte-wise when the two
  bytes straddle the end of the ring, a 16-bit load otherwise.\<close>

definition rx_read_header :: "(nat \<Rightarrow> u8) \<Rightarrow> u32 \<Rightarrow> fault + u16" where
  "rx_read_header m header_offset =
     (if header_offset + PACKET_LENGTH_FIELD_SIZE > RX_BUFFER_SIZE
      then (case load_u8 m (rx_buffer_ptr + unat header_offset) of
              Inl f \<Rightarrow> Inl f
            | Inr byte0 \<Rightarrow>
                (case load_u8 m (rx_buffer_ptr + 0) of
                   Inl f \<Rightarrow> Inl f
                 | Inr byte1 \<Rightarrow> Inr (ucast byte0 OR push_bit 8 (ucast byte1))))
      else load_u16 m (rx_buffer_ptr + unat header_offset))"

text \<open>The \<open>while\<close> loop of \<open>host_chip_process_received_data\<close>, on its two local variables
  (\<open>rx_head\<close> is the local \<open>chip_rx_head\<close>) and the output so far. \<open>None\<close> is a loop that does not end.\<close>

partial_function (option) rx_drain_loop ::
  "state \<Rightarrow> u32 \<Rightarrow> u32 \<Rightarrow> msg list \<Rightarrow> (fault + (u32 \<times> msg list)) option"
where
  "rx_drain_loop s current_rx_tail rx_head out =
     (if current_rx_tail = rx_head then Some (Inr (current_rx_tail, out))
      else
        let bytes_available = rx_bytes_available rx_head current_rx_tail in
        if bytes_available < PACKET_LENGTH_FIELD_SIZE
        then Some (Inr (current_rx_tail, out @ [HOST_RX_NoHeader bytes_available]))
        else
          (case rx_read_header (ram s) current_rx_tail of
             Inl f \<Rightarrow> Some (Inl f)
           | Inr packet_payload_len \<Rightarrow>
               let total_packet_len = ucast packet_payload_len + PACKET_LENGTH_FIELD_SIZE in
               if bytes_available < total_packet_len
               then Some (Inr (current_rx_tail,
                        out @ [HOST_RX_Partial bytes_available total_packet_len]))
               else
                 let data_start = (current_rx_tail + PACKET_LENGTH_FIELD_SIZE) mod RX_BUFFER_SIZE in
                 (case load_u8 (ram s) (rx_buffer_ptr + unat data_start) of
                    Inl f \<Rightarrow> Some (Inl f)
                  | Inr first_byte \<Rightarrow>
                      rx_drain_loop s
                        ((current_rx_tail + total_packet_len) mod RX_BUFFER_SIZE)
                        (BUS_READ_REG s CHIP_REG_RX_HEAD_PTR)
                        (out @ [HOST_RX_Received packet_payload_len data_start first_byte]))))"

definition host_chip_process_received_data :: "state \<Rightarrow> (fault + (state \<times> msg list)) option" where
  "host_chip_process_received_data s =
     (case rx_drain_loop s (host_rx_tail s) (BUS_READ_REG s CHIP_REG_RX_HEAD_PTR) [] of
        None \<Rightarrow> None
      | Some (Inl f) \<Rightarrow> Some (Inl f)
      | Some (Inr (current_rx_tail, out)) \<Rightarrow>
          let s1 = BUS_WRITE_REG s CHIP_REG_HOST_RX_TAIL_PUB current_rx_tail;
              s2 = s1\<lparr>host_rx_tail := current_rx_tail\<rparr>
          in Some (Inr (s2, out @ [HOST_RX_Finished (host_rx_tail s2)])))"

definition host_chip_irq_handler :: "state \<Rightarrow> (fault + (state \<times> msg list)) option" where
  "host_chip_irq_handler s =
     (let int_status = BUS_READ_REG s CHIP_REG_INT_STATUS in
      case (if int_status AND CHIP_INT_RX_DATA_READY_BIT \<noteq> 0
            then (case host_chip_process_received_data
                         (BUS_WRITE_REG s CHIP_REG_INT_CLEAR CHIP_INT_RX_DATA_READY_BIT) of
                    None \<Rightarrow> None
                  | Some (Inl f) \<Rightarrow> Some (Inl f)
                  | Some (Inr (s1, out)) \<Rightarrow> Some (Inr (s1, HOST_RX_ISR # out)))
            else Some (Inr (s, []))) of
        None \<Rightarrow> None
      | Some (Inl f) \<Rightarrow> Some (Inl f)
      | Some (Inr (s1, out1)) \<Rightarrow>
          let (s2, out2) =
                (if int_status AND CHIP_INT_TX_SPACE_AVAIL_BIT \<noteq> 0
                 then (BUS_WRITE_REG s1 CHIP_REG_INT_CLEAR CHIP_INT_TX_SPACE_AVAIL_BIT,
                       out1 @ [HOST_TX_ISR])
                 else (s1, out1));
              (s3, out3) =
                (if int_status AND CHIP_INT_ERROR_BIT \<noteq> 0
                 then (BUS_WRITE_REG s2 CHIP_REG_INT_CLEAR CHIP_INT_ERROR_BIT,
                       out2 @ [HOST_ERR_ISR int_status])
                 else (s2, out2))
          in Some (Inr (s3, out3)))"

section \<open>chip_emulator.c\<close>

definition chip_raise_interrupt :: "state \<Rightarrow> u32 \<Rightarrow> state \<times> msg list" where
  "chip_raise_interrupt s b =
     (BUS_WRITE_REG s CHIP_REG_INT_STATUS (BUS_READ_REG s CHIP_REG_INT_STATUS OR b),
      [CHIP_EMU_Raised b])"

definition chip_emulator_init :: "state \<Rightarrow> state" where
  "chip_emulator_init s =
     (let s1 = s\<lparr>chip_tx_tail := 0, chip_rx_head := 0\<rparr>;
          s2 = BUS_WRITE_REG s1 CHIP_REG_TX_TAIL_PTR (chip_tx_tail s1)
      in BUS_WRITE_REG s2 CHIP_REG_RX_HEAD_PTR (chip_rx_head s2))"

text \<open>The header read of \<open>chip_emulator_process_tx\<close>.\<close>

definition tx_read_header :: "(nat \<Rightarrow> u8) \<Rightarrow> u32 \<Rightarrow> fault + u16" where
  "tx_read_header m header_offset =
     (if header_offset + PACKET_LENGTH_FIELD_SIZE > TX_BUFFER_SIZE
      then (case load_u8 m (tx_buffer_ptr + unat header_offset) of
              Inl f \<Rightarrow> Inl f
            | Inr byte0 \<Rightarrow>
                (case load_u8 m (tx_buffer_ptr + 0) of
                   Inl f \<Rightarrow> Inl f
                 | Inr byte1 \<Rightarrow> Inr (ucast byte0 OR push_bit 8 (ucast byte1))))
      else load_u16 m (tx_buffer_ptr + unat header_offset))"

text \<open>The value \<open>chip_emulator_process_tx\<close> compares with the watermark.\<close>

definition tx_space_freed :: "u32 \<Rightarrow> u32 \<Rightarrow> u32" where
  "tx_space_freed tail head_pub =
     (if tail \<ge> head_pub then TX_BUFFER_SIZE - (tail - head_pub) else head_pub - tail)"

text \<open>The data available to \<open>chip_emulator_process_tx\<close>.\<close>

definition tx_data_available :: "u32 \<Rightarrow> u32 \<Rightarrow> u32" where
  "tx_data_available head_pub tail =
     (if head_pub \<ge> tail then head_pub - tail else TX_BUFFER_SIZE - tail + head_pub)"

definition chip_emulator_process_tx :: "state \<Rightarrow> fault + (state \<times> msg list)" where
  "chip_emulator_process_tx s =
     (let host_tx_head_pub = BUS_READ_REG s CHIP_REG_HOST_TX_HEAD_PUB;
          data_available = tx_data_available host_tx_head_pub (chip_tx_tail s)
      in
      if data_available > 0 then
        if data_available < PACKET_LENGTH_FIELD_SIZE then Inr (s, [])
        else
          (case tx_read_header (ram s) (chip_tx_tail s) of
             Inl f \<Rightarrow> Inl f
           | Inr packet_payload_len \<Rightarrow>
               let total_packet_len = ucast packet_payload_len + PACKET_LENGTH_FIELD_SIZE in
               if data_available < total_packet_len then Inr (s, [])
               else
                 (case load_u8 (ram s)
                         (tx_buffer_ptr +
                          unat ((chip_tx_tail s + PACKET_LENGTH_FIELD_SIZE) mod TX_BUFFER_SIZE)) of
                    Inl f \<Rightarrow> Inl f
                  | Inr first_byte \<Rightarrow>
                      let s1 = s\<lparr>chip_tx_tail :=
                                   (chip_tx_tail s + total_packet_len) mod TX_BUFFER_SIZE\<rparr>;
                          s2 = BUS_WRITE_REG s1 CHIP_REG_TX_TAIL_PTR (chip_tx_tail s1);
                          space_freed = tx_space_freed (chip_tx_tail s2) host_tx_head_pub;
                          out = [CHIP_EMU_TX_Processing packet_payload_len first_byte]
                      in
                      if space_freed \<ge> TX_LOW_WATERMARK_THRESHOLD
                      then (let (s3, out3) = chip_raise_interrupt s2 CHIP_INT_TX_SPACE_AVAIL_BIT
                            in Inr (s3, out @ out3))
                      else Inr (s2, out)))
      else Inr (s, []))"

text \<open>One of the byte loops of \<open>chip_emulator_generate_rx\<close>:
  \<open>for (i = 0; i < n; i++) rx_buffer_ptr[off + i] = (uint8_t)(rand() % 256)\<close>, where the
  \<open>i\<close>-th call of \<open>rand\<close> in the loop returns \<open>rnd (k + i)\<close>.\<close>

fun rx_fill :: "(nat \<Rightarrow> u8) \<Rightarrow> nat \<Rightarrow> (nat \<Rightarrow> nat) \<Rightarrow> nat \<Rightarrow> nat \<Rightarrow> fault + (nat \<Rightarrow> u8)" where
  "rx_fill m off rnd k 0 = Inr m"
| "rx_fill m off rnd k (Suc n) =
     (case rx_fill m off rnd k n of
        Inl f \<Rightarrow> Inl f
      | Inr m1 \<Rightarrow>
          if rx_buffer_ptr + (off + n) < TOTAL_SHARED_MEMORY_SIZE
          then Inr (m1(rx_buffer_ptr + (off + n) := word_of_nat (rnd (k + n) mod 256)))
          else Inl OutOfBounds)"

definition rx_write_payload ::
  "(nat \<Rightarrow> u8) \<Rightarrow> u32 \<Rightarrow> (nat \<Rightarrow> nat) \<Rightarrow> u32 \<Rightarrow> fault + (nat \<Rightarrow> u8)" where
  "rx_write_payload m current_offset rnd simulated_payload_len =
     (if current_offset + simulated_payload_len > RX_BUFFER_SIZE
      then let first_part_len = RX_BUFFER_SIZE - current_offset in
           (case rx_fill m (unat current_offset) rnd 1 (unat first_part_len) of
              Inl f \<Rightarrow> Inl f
            | Inr m1 \<Rightarrow>
                rx_fill m1 0 rnd (1 + unat first_part_len)
                  (unat (simulated_payload_len - first_part_len)))
      else rx_fill m (unat current_offset) rnd 1 (unat simulated_payload_len))"

text \<open>\<open>(rand() % 100) + 10\<close>, for the value \<open>r\<close> that \<open>rand\<close> returns.\<close>

definition rx_simulated_payload_len :: "nat \<Rightarrow> u32" where
  "rx_simulated_payload_len r = word_of_nat (r mod 100 + 10)"

text \<open>\<open>rnd i\<close> is what the \<open>i\<close>-th call of \<open>rand\<close> in this run returns (a value from 0 to
  \<open>RAND_MAX\<close>).\<close>

definition chip_emulator_generate_rx :: "state \<Rightarrow> (nat \<Rightarrow> nat) \<Rightarrow> fault + (state \<times> msg list)" where
  "chip_emulator_generate_rx s rnd =
     (let host_rx_tail_pub = BUS_READ_REG s CHIP_REG_HOST_RX_TAIL_PUB;
          space_available =
            (if chip_rx_head s \<ge> host_rx_tail_pub
             then RX_BUFFER_SIZE - (chip_rx_head s - host_rx_tail_pub) - 1
             else (host_rx_tail_pub - chip_rx_head s) - 1);
          simulated_payload_len = rx_simulated_payload_len (rnd 0);
          total_packet_len = simulated_payload_len + PACKET_LENGTH_FIELD_SIZE
      in
      if space_available < total_packet_len then Inr (s, [])
      else
        let len_header = (ucast simulated_payload_len :: u16);
            current_offset = chip_rx_head s
        in
        (case store_u16 (ram s) (rx_buffer_ptr + unat current_offset) len_header of
           Inl f \<Rightarrow> Inl f
         | Inr m1 \<Rightarrow>
             let current_offset = (current_offset + PACKET_LENGTH_FIELD_SIZE) mod RX_BUFFER_SIZE in
             (case rx_write_payload m1 current_offset rnd simulated_payload_len of
                Inl f \<Rightarrow> Inl f
              | Inr m2 \<Rightarrow>
                  let s1 = s\<lparr>ram := m2,
                              chip_rx_head := (chip_rx_head s + total_packet_len) mod RX_BUFFER_SIZE\<rparr>;
                      s2 = BUS_WRITE_REG s1 CHIP_REG_RX_HEAD_PTR (chip_rx_head s1);
                      out = [CHIP_EMU_RX_Generated simulated_payload_len (chip_rx_head s2)];
                      data_written =
                        (if chip_rx_head s2 \<ge> host_rx_tail_pub
                         then chip_rx_head s2 - host_rx_tail_pub
                         else RX_BUFFER_SIZE - host_rx_tail_pub + chip_rx_head s2)
                  in
                  if data_written \<ge> RX_HIGH_WATERMARK_THRESHOLD
                  then (let (s3, out3) = chip_raise_interrupt s2 CHIP_INT_RX_DATA_READY_BIT
                        in Inr (s3, out @ out3))
                  else Inr (s2, out))))"

section \<open>Reference notions and test states\<close>

text \<open>The spec's ring arithmetic (its section 4.1), in its own words:
  \<open>used(head, tail) = (head - tail) mod N\<close> and \<open>free(head, tail) = N - 1 - used(head, tail)\<close>.\<close>

definition used_spec :: "u32 \<Rightarrow> u32 \<Rightarrow> int" where
  "used_spec head tail = (uint head - uint tail) mod uint TX_BUFFER_SIZE"

definition free_spec :: "u32 \<Rightarrow> u32 \<Rightarrow> int" where
  "free_spec head tail = uint TX_BUFFER_SIZE - 1 - used_spec head tail"

text \<open>The lines of the output that report an error to the caller or the upper layer.\<close>

fun is_error_report :: "msg \<Rightarrow> bool" where
  "is_error_report (HOST_TX_ERR_TooLarge _) = True"
| "is_error_report (HOST_TX_ERR_NoSpace _ _) = True"
| "is_error_report (HOST_ERR_ISR _) = True"
| "is_error_report _ = False"

text \<open>The state \<open>main\<close> starts from (\<open>memset\<close> of the shared RAM, zeroed statics), and the
  state after the two initialisations of \<open>host_main_loop\<close>.\<close>

definition zero_state :: state where
  "zero_state = \<lparr>ram = (\<lambda>_. 0), regs = (\<lambda>_. 0), host_tx_head = 0, host_rx_tail = 0,
     chip_tx_tail = 0, chip_rx_head = 0\<rparr>"

definition init_state :: state where
  "init_state = chip_emulator_init (host_chip_driver_init zero_state)"

text \<open>An empty RX ring whose indices all stand at the last byte of the ring.\<close>

definition rx_wrap_state :: state where
  "rx_wrap_state =
     init_state\<lparr>regs := (regs init_state)(1 := 4095, 3 := 4095),
       host_rx_tail := 4095, chip_rx_head := 4095\<rparr>"

text \<open>An RX ring of four bytes whose header advertises 65535 payload bytes.\<close>

definition malformed_state :: state where
  "malformed_state =
     init_state\<lparr>ram := (ram init_state)(4096 := 0xFF, 4097 := 0xFF),
       regs := (regs init_state)(1 := 4), chip_rx_head := 4\<rparr>"

text \<open>The number of bytes between a tail \<open>t\<close> and a head \<open>h\<close> of a ring of 4096 bytes, on
  natural numbers.\<close>

definition ring_used :: "nat \<Rightarrow> nat \<Rightarrow> nat" where
  "ring_used h t = (if t \<le> h then h - t else 4096 - t + h)"

text \<open>All eight indices, the four local ones and the four published ones, are inside their
  ring.\<close>

definition idx_inv :: "state \<Rightarrow> bool" where
  "idx_inv s \<longleftrightarrow>
     host_tx_head s < TX_BUFFER_SIZE \<and> chip_tx_tail s < TX_BUFFER_SIZE \<and>
     BUS_READ_REG s CHIP_REG_HOST_TX_HEAD_PUB < TX_BUFFER_SIZE \<and>
     BUS_READ_REG s CHIP_REG_TX_TAIL_PTR < TX_BUFFER_SIZE \<and>
     chip_rx_head s < RX_BUFFER_SIZE \<and> host_rx_tail s < RX_BUFFER_SIZE \<and>
     BUS_READ_REG s CHIP_REG_RX_HEAD_PTR < RX_BUFFER_SIZE \<and>
     BUS_READ_REG s CHIP_REG_HOST_RX_TAIL_PUB < RX_BUFFER_SIZE"

text \<open>The frames in the RX ring. \<open>rx_frames_at m t Ls\<close>: from offset \<open>t\<close> on the ring holds
  frames whose headers, read as the consumer reads them, are the lengths \<open>Ls\<close>, each frame
  starting where the one before ends. \<open>rx_boundaries t Ls\<close> are the offsets where these frames
  start and end, \<open>frames_size Ls\<close> is the number of bytes they take, and \<open>rx_received out\<close> are
  the payload lengths of the packets the output reports as received.\<close>

fun rx_frames_at :: "(nat \<Rightarrow> u8) \<Rightarrow> u32 \<Rightarrow> u16 list \<Rightarrow> bool" where
  "rx_frames_at m t [] = True"
| "rx_frames_at m t (L # Ls) =
     (rx_read_header m t = Inr L \<and>
      rx_frames_at m ((t + (ucast L + PACKET_LENGTH_FIELD_SIZE)) mod RX_BUFFER_SIZE) Ls)"

fun rx_boundaries :: "u32 \<Rightarrow> u16 list \<Rightarrow> u32 list" where
  "rx_boundaries t [] = [t]"
| "rx_boundaries t (L # Ls) =
     t # rx_boundaries ((t + (ucast L + PACKET_LENGTH_FIELD_SIZE)) mod RX_BUFFER_SIZE) Ls"

fun frames_size :: "u16 list \<Rightarrow> nat" where
  "frames_size [] = 0"
| "frames_size (L # Ls) = unat L + 2 + frames_size Ls"

fun rx_received :: "msg list \<Rightarrow> u16 list" where
  "rx_received [] = []"
| "rx_received (HOST_RX_Received L _ _ # ms) = L # rx_received ms"
| "rx_received (_ # ms) = rx_received ms"

text \<open>The RX ring holds the frames \<open>Ls\<close>: the local indices are inside the ring and
  published, the frames start at the tail, and the last one ends at the head.\<close>

definition rx_ring_holds :: "state \<Rightarrow> u16 list \<Rightarrow> bool" where
  "rx_ring_holds s Ls \<longleftrightarrow>
     chip_rx_head s < RX_BUFFER_SIZE \<and> host_rx_tail s < RX_BUFFER_SIZE \<and>
     BUS_READ_REG s CHIP_REG_RX_HEAD_PTR = chip_rx_head s \<and>
     BUS_READ_REG s CHIP_REG_HOST_RX_TAIL_PUB = host_rx_tail s \<and>
     rx_frames_at (ram s) (host_rx_tail s) Ls \<and>
     frames_size Ls = ring_used (unat (chip_rx_head s)) (unat (host_rx_tail s))"

text \<open>An RX ring of zero bytes whose head register holds 5000, a value outside the ring.\<close>

definition rx_head_outside_state :: state where
  "rx_head_outside_state = init_state\<lparr>regs := (regs init_state)(1 := 5000)\<rparr>"

text \<open>An RX ring of zero bytes with head 10 and the HOST's tail at 4096, outside the ring.\<close>

definition rx_tail_outside_state :: state where
  "rx_tail_outside_state =
     init_state\<lparr>regs := (regs init_state)(1 := 10), chip_rx_head := 10, host_rx_tail := 4096\<rparr>"

text \<open>An RX ring that holds one frame of two payload bytes, followed by a header that
  advertises 65535 payload bytes.\<close>

definition rx_frame_then_oversize_state :: state where
  "rx_frame_then_oversize_state =
     init_state\<lparr>ram := (ram init_state)(4096 := 2, 4097 := 0, 4098 := 0xAA, 4099 := 0xBB,
         4100 := 0xFF, 4101 := 0xFF),
       regs := (regs init_state)(1 := 8), chip_rx_head := 8\<rparr>"

text \<open>An RX ring whose first three bytes are 0xFF and whose head register holds 65537, a
  value outside the ring.\<close>

definition rx_oversize_head_outside_state :: state where
  "rx_oversize_head_outside_state =
     init_state\<lparr>ram := (ram init_state)(4096 := 0xFF, 4097 := 0xFF, 4098 := 0xFF),
       regs := (regs init_state)(1 := 65537)\<rparr>"

section \<open>Evaluation\<close>

lemma u32_le_one: "(x::u32) \<le> 1 \<longleftrightarrow> x = 0 \<or> x = 1"
  by unat_arith

lemmas consts_defs = TX_BUFFER_SIZE_def RX_BUFFER_SIZE_def TX_LOW_WATERMARK_THRESHOLD_def
  RX_HIGH_WATERMARK_THRESHOLD_def PACKET_LENGTH_FIELD_SIZE_def CHIP_BASE_ADDR_def
  CHIP_REG_TX_TAIL_PTR_def CHIP_REG_RX_HEAD_PTR_def CHIP_REG_HOST_TX_HEAD_PUB_def
  CHIP_REG_HOST_RX_TAIL_PUB_def CHIP_REG_INT_STATUS_def CHIP_REG_INT_CLEAR_def
  CHIP_REG_INT_ENABLE_def CHIP_INT_RX_DATA_READY_BIT_def CHIP_INT_TX_SPACE_AVAIL_BIT_def
  CHIP_INT_ERROR_BIT_def TOTAL_SHARED_MEMORY_SIZE_def tx_buffer_ptr_def rx_buffer_ptr_def

lemmas run_defs = u32_le_one init_state_def zero_state_def chip_emulator_init_def
  host_chip_driver_init_def host_chip_send_packet_def tx_space_available_def
  tx_copy_payload_def store_u16_def memcpy_def load_u8_def load_u16_def tx_read_header_def
  chip_emulator_process_tx_def tx_data_available_def tx_space_freed_def chip_raise_interrupt_def
  BUS_READ_REG_def BUS_WRITE_REG_def consts_defs Let_def

lemmas rx_defs = rx_bytes_available_def rx_read_header_def host_chip_process_received_data_def
  host_chip_irq_handler_def

lemma unat_rx_simulated_payload_len:
  "unat (rx_simulated_payload_len r) = r mod 100 + 10"
proof -
  have "r mod 100 + 10 < 2 ^ LENGTH(32)"
    using mod_less_divisor [of 100 r] by simp
  then show ?thesis
    unfolding rx_simulated_payload_len_def by (rule of_nat_inverse [OF refl])
qed

lemma unat_rx_simulated_total:
  "unat (rx_simulated_payload_len r + 2) = r mod 100 + 12"
proof -
  have "r mod 100 + 12 < 2 ^ 32"
    using mod_less_divisor [of 100 r] by simp
  then show ?thesis
    by (simp add: unat_word_ariths unat_rx_simulated_payload_len)
qed

lemma chip_emulator_generate_rx_wrap_state:
  "chip_emulator_generate_rx rx_wrap_state rnd = Inl OutOfBounds"
proof -
  have "\<not> (4095 :: u32) < rx_simulated_payload_len (rnd 0) + 2"
    using mod_less_divisor [of 100 "rnd 0"]
    by (simp add: word_less_nat_alt unat_rx_simulated_total del: mod_less_divisor)
  then show ?thesis
    by (simp add: run_defs rx_wrap_state_def chip_emulator_generate_rx_def)
qed

section \<open>Ring arithmetic on natural numbers\<close>

lemma unat_N: "unat TX_BUFFER_SIZE = 4096" "unat RX_BUFFER_SIZE = 4096"
  by (simp_all add: TX_BUFFER_SIZE_def RX_BUFFER_SIZE_def)

lemma unat_FIELD: "unat PACKET_LENGTH_FIELD_SIZE = 2"
  by (simp add: PACKET_LENGTH_FIELD_SIZE_def)

lemma unat_sub_le: "unat b \<le> unat a \<Longrightarrow> unat (a - b) = unat a - unat b"
  for a b :: u32
  by (simp add: unat_sub word_le_nat_alt)

lemma unat_add_lt: "unat a + unat b < 2 ^ 32 \<Longrightarrow> unat (a + b) = unat a + unat b"
  for a b :: u32
  using unat_add_lem [of a b] by simp

lemma tx_space_available_unat:
  assumes h: "unat head < 4096" and t: "unat tail < 4096"
  shows "unat (tx_space_available head tail) =
    (if unat tail \<le> unat head then 4095 - (unat head - unat tail) else unat tail - unat head - 1)"
proof (cases "unat tail \<le> unat head")
  case True
  then have w: "tail \<le> head"
    by (simp add: word_le_nat_alt)
  have d: "unat (head - tail) = unat head - unat tail"
    using True by (rule unat_sub_le)
  have "unat (head - tail) \<le> unat TX_BUFFER_SIZE"
    unfolding d unat_N using h by arith
  then have e: "unat (TX_BUFFER_SIZE - (head - tail)) = unat TX_BUFFER_SIZE - unat (head - tail)"
    by (rule unat_sub_le)
  have "unat (1 :: u32) \<le> unat (TX_BUFFER_SIZE - (head - tail))"
    unfolding e d unat_N using h by simp
  then have f: "unat (TX_BUFFER_SIZE - (head - tail) - 1) =
      unat (TX_BUFFER_SIZE - (head - tail)) - unat (1 :: u32)"
    by (rule unat_sub_le)
  have eq: "tx_space_available head tail = TX_BUFFER_SIZE - (head - tail) - 1"
    by (simp only: tx_space_available_def w if_True)
  show ?thesis
    unfolding eq f e d unat_N using True h by simp
next
  case False
  then have w: "\<not> tail \<le> head"
    by (simp add: word_le_nat_alt)
  from False have lt: "unat head \<le> unat tail" by simp
  have d: "unat (tail - head) = unat tail - unat head"
    using lt by (rule unat_sub_le)
  have "unat (1 :: u32) \<le> unat (tail - head)"
    unfolding d using False by simp
  then have f: "unat (tail - head - 1) = unat (tail - head) - unat (1 :: u32)"
    by (rule unat_sub_le)
  have eq: "tx_space_available head tail = tail - head - 1"
    by (simp only: tx_space_available_def w if_False)
  show ?thesis
    unfolding eq f d using False by simp
qed

lemma rx_bytes_available_unat:
  assumes h: "unat head < 4096" and t: "unat tail < 4096"
  shows "unat (rx_bytes_available head tail) =
    (if unat tail \<le> unat head then unat head - unat tail else 4096 - unat tail + unat head)"
proof (cases "unat tail \<le> unat head")
  case True
  then have w: "tail \<le> head"
    by (simp add: word_le_nat_alt)
  have d: "unat (head - tail) = unat head - unat tail"
    using True by (rule unat_sub_le)
  have eq: "rx_bytes_available head tail = head - tail"
    by (simp only: rx_bytes_available_def w if_True)
  show ?thesis
    unfolding eq d using True by simp
next
  case False
  then have w: "\<not> tail \<le> head"
    by (simp add: word_le_nat_alt)
  have "unat tail \<le> unat RX_BUFFER_SIZE"
    unfolding unat_N using t by simp
  then have d: "unat (RX_BUFFER_SIZE - tail) = unat RX_BUFFER_SIZE - unat tail"
    by (rule unat_sub_le)
  have "unat (RX_BUFFER_SIZE - tail) + unat head < 2 ^ 32"
    unfolding d unat_N using h by simp
  then have e: "unat (RX_BUFFER_SIZE - tail + head) = unat (RX_BUFFER_SIZE - tail) + unat head"
    by (rule unat_add_lt)
  have eq: "rx_bytes_available head tail = RX_BUFFER_SIZE - tail + head"
    by (simp only: rx_bytes_available_def w if_False)
  show ?thesis
    unfolding eq e d unat_N using False by simp
qed

lemma unat_total_packet_len:
  "unat (ucast (L :: u16) + PACKET_LENGTH_FIELD_SIZE :: u32) = unat L + 2"
proof -
  have u: "unat (ucast L :: u32) = unat L"
    using unsigned_less [of L, where 'a = nat] by (simp add: unsigned_ucast_eq take_bit_nat_eq_self)
  have "unat L < 65536"
    using unsigned_less [of L, where 'a = nat] by simp
  then have "unat (ucast L :: u32) + unat PACKET_LENGTH_FIELD_SIZE < 2 ^ 32"
    unfolding u unat_FIELD by simp
  then have "unat (ucast L + PACKET_LENGTH_FIELD_SIZE :: u32) =
      unat (ucast L :: u32) + unat PACKET_LENGTH_FIELD_SIZE"
    by (rule unat_add_lt)
  then show ?thesis
    unfolding u unat_FIELD .
qed

lemma unat_advance:
  assumes "unat t + unat k < 2 ^ 32"
  shows "unat ((t + k) mod RX_BUFFER_SIZE) = (unat t + unat k) mod 4096"
    and "unat ((t + k) mod TX_BUFFER_SIZE) = (unat t + unat k) mod 4096"
proof -
  have a: "unat (t + k) = unat t + unat k"
    using assms by (rule unat_add_lt)
  show "unat ((t + k) mod RX_BUFFER_SIZE) = (unat t + unat k) mod 4096"
    unfolding unat_mod a unat_N ..
  show "unat ((t + k) mod TX_BUFFER_SIZE) = (unat t + unat k) mod 4096"
    unfolding unat_mod a unat_N ..
qed

lemma ring_advance:
  fixes h t k :: nat
  assumes h: "h < 4096" and t: "t < 4096"
    and k: "k \<le> (if t \<le> h then h - t else 4096 - t + h)"
  shows "(if (t + k) mod 4096 \<le> h then h - (t + k) mod 4096 else 4096 - (t + k) mod 4096 + h) =
    (if t \<le> h then h - t else 4096 - t + h) - k"
proof (cases "t \<le> h")
  case True
  with k have "k \<le> h - t" by simp
  with True h have "t + k \<le> h" "t + k < 4096" by arith+
  then have e: "(t + k) mod 4096 = t + k" by simp
  show ?thesis
    unfolding e using True \<open>t + k \<le> h\<close> by simp
next
  case False
  with k have kk: "k \<le> 4096 - t + h" by simp
  show ?thesis
  proof (cases "t + k < 4096")
    case True
    then have e: "(t + k) mod 4096 = t + k" by simp
    show ?thesis
      unfolding e using False True by simp
  next
    case ge: False
    then have "(t + k) mod 4096 = (t + k - 4096) mod 4096"
      by (simp add: le_mod_geq)
    moreover have "t + k - 4096 < 4096"
      using kk h t by arith
    ultimately have e: "(t + k) mod 4096 = t + k - 4096" by simp
    show ?thesis
      unfolding e using False ge kk h t by simp arith
  qed
qed

lemma rx_bytes_available_ring_used:
  "unat head < 4096 \<Longrightarrow> unat tail < 4096 \<Longrightarrow>
   unat (rx_bytes_available head tail) = ring_used (unat head) (unat tail)"
  by (simp add: rx_bytes_available_unat ring_used_def)

lemma ring_used_advance:
  "h < 4096 \<Longrightarrow> t < 4096 \<Longrightarrow> k \<le> ring_used h t \<Longrightarrow>
   ring_used h ((t + k) mod 4096) = ring_used h t - k"
  unfolding ring_used_def by (rule ring_advance)

lemma ring_used_less: "h < 4096 \<Longrightarrow> t < 4096 \<Longrightarrow> ring_used h t < 4096"
  unfolding ring_used_def by (cases "t \<le> h") simp_all

lemma ring_used_zero: "h < 4096 \<Longrightarrow> t < 4096 \<Longrightarrow> ring_used h t = 0 \<longleftrightarrow> h = t"
  by (auto simp: ring_used_def)

lemma rx_read_header_in_bounds:
  assumes t: "unat t < 4096"
  shows "\<exists>L. rx_read_header m t = Inr L"
proof (cases "t + PACKET_LENGTH_FIELD_SIZE > RX_BUFFER_SIZE")
  case True
  then show ?thesis
    using t by (simp add: rx_read_header_def load_u8_def rx_buffer_ptr_def
        TOTAL_SHARED_MEMORY_SIZE_def unat_N)
next
  case False
  have "unat t + unat PACKET_LENGTH_FIELD_SIZE < 2 ^ 32"
    using t by (simp add: unat_FIELD)
  then have "unat (t + PACKET_LENGTH_FIELD_SIZE) = unat t + unat PACKET_LENGTH_FIELD_SIZE"
    by (rule unat_add_lt)
  with False have "unat t + 2 \<le> 4096"
    by (simp add: word_less_nat_alt unat_N unat_FIELD)
  then show ?thesis
    using False by (simp add: rx_read_header_def load_u16_def rx_buffer_ptr_def
        TOTAL_SHARED_MEMORY_SIZE_def unat_N)
qed

lemma rx_drain_loop_step:
  assumes t: "unat t < 4096" and h: "unat h < 4096"
  shows "rx_drain_loop s t h out =
    (if t = h then Some (Inr (t, out))
     else if ring_used (unat h) (unat t) < 2
       then Some (Inr (t, out @ [HOST_RX_NoHeader (rx_bytes_available h t)]))
     else (case rx_read_header (ram s) t of
        Inl f \<Rightarrow> Some (Inl f)
      | Inr L \<Rightarrow>
          if ring_used (unat h) (unat t) < unat L + 2
          then Some (Inr (t, out @
                 [HOST_RX_Partial (rx_bytes_available h t) (ucast L + PACKET_LENGTH_FIELD_SIZE)]))
          else rx_drain_loop s
                 ((t + (ucast L + PACKET_LENGTH_FIELD_SIZE)) mod RX_BUFFER_SIZE)
                 (BUS_READ_REG s CHIP_REG_RX_HEAD_PTR)
                 (out @ [HOST_RX_Received L ((t + PACKET_LENGTH_FIELD_SIZE) mod RX_BUFFER_SIZE)
                    (ram s (rx_buffer_ptr +
                       unat ((t + PACKET_LENGTH_FIELD_SIZE) mod RX_BUFFER_SIZE)))])))"
proof -
  have c1: "(rx_bytes_available h t < PACKET_LENGTH_FIELD_SIZE) = (ring_used (unat h) (unat t) < 2)"
    using t h by (simp add: word_less_nat_alt rx_bytes_available_ring_used unat_FIELD)
  have c2: "(rx_bytes_available h t < ucast L + PACKET_LENGTH_FIELD_SIZE) =
      (ring_used (unat h) (unat t) < unat L + 2)" for L :: u16
    using t h by (simp add: word_less_nat_alt rx_bytes_available_ring_used unat_total_packet_len)
  have "unat ((t + PACKET_LENGTH_FIELD_SIZE) mod RX_BUFFER_SIZE) < 4096"
    using unat_advance(1) [of t PACKET_LENGTH_FIELD_SIZE] t by (simp add: unat_FIELD)
  then have c3: "load_u8 (ram s) (rx_buffer_ptr +
      unat ((t + PACKET_LENGTH_FIELD_SIZE) mod RX_BUFFER_SIZE)) =
      Inr (ram s (rx_buffer_ptr + unat ((t + PACKET_LENGTH_FIELD_SIZE) mod RX_BUFFER_SIZE)))"
    by (simp add: load_u8_def rx_buffer_ptr_def TOTAL_SHARED_MEMORY_SIZE_def unat_N)
  show ?thesis
    apply (subst rx_drain_loop.simps)
    apply (simp only: Let_def c1 c2 c3 sum.case)
    done
qed

lemma rx_drain_loop_total:
  assumes h: "unat (BUS_READ_REG s CHIP_REG_RX_HEAD_PTR) < 4096"
  shows "unat t < 4096 \<Longrightarrow>
    \<exists>t' out'. rx_drain_loop s t (BUS_READ_REG s CHIP_REG_RX_HEAD_PTR) out = Some (Inr (t', out')) \<and>
      unat t' < 4096 \<and>
      ring_used (unat (BUS_READ_REG s CHIP_REG_RX_HEAD_PTR)) (unat t') \<le>
        ring_used (unat (BUS_READ_REG s CHIP_REG_RX_HEAD_PTR)) (unat t)"
proof (induction "ring_used (unat (BUS_READ_REG s CHIP_REG_RX_HEAD_PTR)) (unat t)"
    arbitrary: t out rule: less_induct)
  case less
  let ?h = "BUS_READ_REG s CHIP_REG_RX_HEAD_PTR"
  note step = rx_drain_loop_step [OF less.prems h, of s out]
  show ?case
  proof (cases "t = ?h \<or> ring_used (unat ?h) (unat t) < 2")
    case True
    then show ?thesis
      using less.prems by (auto simp: step)
  next
    case False
    obtain L where L: "rx_read_header (ram s) t = Inr L"
      using rx_read_header_in_bounds [OF less.prems] by blast
    show ?thesis
    proof (cases "ring_used (unat ?h) (unat t) < unat L + 2")
      case True
      then show ?thesis
        using False less.prems by (auto simp: step L)
    next
      case enough: False
      let ?t' = "(t + (ucast L + PACKET_LENGTH_FIELD_SIZE)) mod RX_BUFFER_SIZE"
      have "unat L < 65536"
        using unsigned_less [of L, where 'a = nat] by simp
      then have "unat t + unat (ucast L + PACKET_LENGTH_FIELD_SIZE :: u32) < 2 ^ 32"
        using less.prems by (simp add: unat_total_packet_len)
      then have t': "unat ?t' = (unat t + (unat L + 2)) mod 4096"
        by (simp add: unat_advance(1) unat_total_packet_len)
      then have b: "unat ?t' < 4096" by simp
      have u: "ring_used (unat ?h) (unat ?t') = ring_used (unat ?h) (unat t) - (unat L + 2)"
        unfolding t' using h less.prems enough by (intro ring_used_advance) simp_all
      then have "ring_used (unat ?h) (unat ?t') < ring_used (unat ?h) (unat t)"
        using enough by simp
      from less.hyps [OF this b]
      obtain t'' out'' where
        "rx_drain_loop s ?t' ?h
           (out @ [HOST_RX_Received L ((t + PACKET_LENGTH_FIELD_SIZE) mod RX_BUFFER_SIZE)
              (ram s (rx_buffer_ptr + unat ((t + PACKET_LENGTH_FIELD_SIZE) mod RX_BUFFER_SIZE)))])
         = Some (Inr (t'', out''))"
        "unat t'' < 4096" "ring_used (unat ?h) (unat t'') \<le> ring_used (unat ?h) (unat ?t')"
        by blast
      then show ?thesis
        using False enough u by (auto simp: step L)
    qed
  qed
qed

lemma unat_less_N: "x < RX_BUFFER_SIZE \<longleftrightarrow> unat x < 4096" "x < TX_BUFFER_SIZE \<longleftrightarrow> unat x < 4096"
  by (simp_all add: word_less_nat_alt unat_N)

lemma rx_read_header_outside:
  assumes "\<not> unat t < 4096"
  shows "rx_read_header m t = Inl OutOfBounds"
  using assms
  by (simp add: rx_read_header_def load_u8_def load_u16_def rx_buffer_ptr_def
      TOTAL_SHARED_MEMORY_SIZE_def unat_N)

lemma rx_read_header_in_ring: "rx_read_header m t = Inr L \<Longrightarrow> unat t < 4096"
  using rx_read_header_outside [of t m] by auto

lemma rx_drain_loop_ends:
  assumes hn: "unat (BUS_READ_REG s CHIP_REG_RX_HEAD_PTR) < 4096"
  shows "\<exists>r. rx_drain_loop s t (BUS_READ_REG s CHIP_REG_RX_HEAD_PTR) out = Some r"
proof (cases "unat t < 4096")
  case True
  from rx_drain_loop_total [OF hn True, of out] show ?thesis by blast
next
  case False
  then show ?thesis
    by (subst rx_drain_loop.simps) (simp add: Let_def rx_read_header_outside)
qed

section \<open>The index invariant\<close>

lemma mod_N_less: "x mod TX_BUFFER_SIZE < TX_BUFFER_SIZE" "x mod RX_BUFFER_SIZE < RX_BUFFER_SIZE"
  by (simp_all add: TX_BUFFER_SIZE_def RX_BUFFER_SIZE_def word_mod_less_divisor)

lemmas reg_defs = BUS_READ_REG_def BUS_WRITE_REG_def CHIP_BASE_ADDR_def
  CHIP_REG_TX_TAIL_PTR_def CHIP_REG_RX_HEAD_PTR_def CHIP_REG_HOST_TX_HEAD_PUB_def
  CHIP_REG_HOST_RX_TAIL_PUB_def CHIP_REG_INT_STATUS_def CHIP_REG_INT_CLEAR_def
  CHIP_REG_INT_ENABLE_def

lemma send_idx_inv:
  assumes "idx_inv s" "host_chip_send_packet s data len = Inr (rc, s', out)"
  shows "idx_inv s'"
  using assms
  by (auto simp: host_chip_send_packet_def idx_inv_def Let_def mod_N_less reg_defs
      split: if_splits sum.splits)

lemma process_tx_idx_inv:
  assumes "idx_inv s" "chip_emulator_process_tx s = Inr (s', out)"
  shows "idx_inv s'"
  using assms
  by (auto simp: chip_emulator_process_tx_def chip_raise_interrupt_def idx_inv_def Let_def
      mod_N_less reg_defs split: if_splits sum.splits)

lemma generate_rx_idx_inv:
  assumes "idx_inv s" "chip_emulator_generate_rx s rnd = Inr (s', out)"
  shows "idx_inv s'"
  using assms
  by (auto simp: chip_emulator_generate_rx_def chip_raise_interrupt_def idx_inv_def Let_def
      mod_N_less reg_defs split: if_splits sum.splits)

lemma drain_idx_inv:
  assumes "idx_inv s" "host_chip_process_received_data s = Some (Inr (s', out))"
  shows "idx_inv s'"
proof -
  from assms(1) have hn: "unat (BUS_READ_REG s CHIP_REG_RX_HEAD_PTR) < 4096"
    and tn: "unat (host_rx_tail s) < 4096"
    by (simp_all add: idx_inv_def unat_less_N)
  from rx_drain_loop_total [OF hn tn, of "[]"]
  obtain t' out' where
    r: "rx_drain_loop s (host_rx_tail s) (BUS_READ_REG s CHIP_REG_RX_HEAD_PTR) [] = Some (Inr (t', out'))"
    and t': "unat t' < 4096"
    by blast
  from assms(2) have "s' = (BUS_WRITE_REG s CHIP_REG_HOST_RX_TAIL_PUB t')\<lparr>host_rx_tail := t'\<rparr>"
    by (simp add: host_chip_process_received_data_def r Let_def)
  then show ?thesis
    using assms(1) t' by (simp add: idx_inv_def reg_defs unat_less_N)
qed

lemma tx_data_available_eq: "tx_data_available h t = rx_bytes_available h t"
  by (simp add: tx_data_available_def rx_bytes_available_def TX_BUFFER_SIZE_def RX_BUFFER_SIZE_def)

lemma int_ring_used:
  fixes a b :: nat
  assumes "a < 4096" "b < 4096"
  shows "(int a - int b) mod 4096 = int (ring_used a b)"
proof (cases "b \<le> a")
  case True
  then have "(int a - int b) mod 4096 = int a - int b"
    using assms by (intro mod_pos_pos_trivial) simp_all
  then show ?thesis
    using True by (simp add: ring_used_def of_nat_diff)
next
  case False
  then have "(int a - int b + 4096) mod 4096 = int a - int b + 4096"
    using assms by (intro mod_pos_pos_trivial) simp_all
  then have "(int a - int b) mod 4096 = int a - int b + 4096"
    by simp
  then show ?thesis
    using False assms by (simp add: ring_used_def of_nat_diff)
qed

lemma used_spec_ring_used:
  assumes h: "unat head < 4096" and t: "unat tail < 4096"
  shows "used_spec head tail = int (ring_used (unat head) (unat tail))"
proof -
  have "used_spec head tail = (int (unat head) - int (unat tail)) mod 4096"
    by (simp add: used_spec_def TX_BUFFER_SIZE_def)
  then show ?thesis
    by (simp only: int_ring_used [OF h t])
qed

lemma used_in_range:
  assumes "head < RX_BUFFER_SIZE" "tail < RX_BUFFER_SIZE"
  shows "rx_bytes_available head tail \<le> RX_BUFFER_SIZE - 1 \<and>
         uint (rx_bytes_available head tail) = used_spec head tail \<and>
         0 \<le> used_spec head tail \<and> used_spec head tail \<le> uint RX_BUFFER_SIZE - 1"
proof -
  from assms have h: "unat head < 4096" and t: "unat tail < 4096"
    by (simp_all add: unat_less_N)
  have l: "ring_used (unat head) (unat tail) < 4096"
    using h t by (rule ring_used_less)
  have u: "unat (rx_bytes_available head tail) = ring_used (unat head) (unat tail)"
    using h t by (rule rx_bytes_available_ring_used)
  have "unat (RX_BUFFER_SIZE - 1) = 4095"
    by (simp add: RX_BUFFER_SIZE_def)
  then have "rx_bytes_available head tail \<le> RX_BUFFER_SIZE - 1"
    using l u by (simp add: word_le_nat_alt)
  moreover have "uint (rx_bytes_available head tail) = int (unat (rx_bytes_available head tail))"
    by simp
  ultimately show ?thesis
    using l by (simp add: used_spec_ring_used [OF h t] u RX_BUFFER_SIZE_def del: of_nat_unat)
qed

lemma idx_inv_init_state: "idx_inv init_state"
  by (simp add: idx_inv_def run_defs)

section \<open>The contract of the send function\<close>

text \<open>
  For a length whose sum with the header size does not wrap (\<open>len \<le> 2^32 - 3\<close>), indices
  inside the ring and a source of at least \<open>len\<close> bytes: the free space the function computes
  is the spec's \<open>free(head, tail)\<close>; it returns -1 exactly when \<open>len + 2 > N\<close>, otherwise -2
  exactly when the free space is below \<open>len + 2\<close>, in both cases with the state untouched;
  otherwise it returns 0, with the head advanced by \<open>len + 2\<close> modulo \<open>N\<close> and published.
\<close>

lemma tx_space_available_free_spec:
  assumes "head < TX_BUFFER_SIZE" "tail < TX_BUFFER_SIZE"
  shows "uint (tx_space_available head tail) = free_spec head tail"
proof -
  from assms have h: "unat head < 4096" and t: "unat tail < 4096"
    by (simp_all add: unat_less_N)
  have l: "ring_used (unat head) (unat tail) < 4096"
    using h t by (rule ring_used_less)
  have "unat (tx_space_available head tail) = 4095 - ring_used (unat head) (unat tail)"
    using h t by (simp add: tx_space_available_unat ring_used_def)
  moreover have "uint (tx_space_available head tail) = int (unat (tx_space_available head tail))"
    by simp
  ultimately show ?thesis
    using l by (simp add: free_spec_def used_spec_ring_used [OF h t] TX_BUFFER_SIZE_def
        of_nat_diff del: of_nat_unat)
qed

lemma tx_copy_payload_in_bounds:
  assumes co: "unat current_offset < 4096" and len: "unat len + 2 \<le> 4096"
    and d: "unat len \<le> length data"
  shows "\<exists>m'. tx_copy_payload m current_offset data len = Inr m'"
proof -
  have "unat current_offset + unat len < 2 ^ 32"
    using co len by simp
  then have s: "unat (current_offset + len) = unat current_offset + unat len"
    by (rule unat_add_lt)
  show ?thesis
  proof (cases "current_offset + len > TX_BUFFER_SIZE")
    case True
    then have w: "4096 < unat current_offset + unat len"
      by (simp add: word_less_nat_alt s unat_N)
    have "unat current_offset \<le> unat TX_BUFFER_SIZE"
      using co by (simp add: unat_N)
    then have f: "unat (TX_BUFFER_SIZE - current_offset) = 4096 - unat current_offset"
      by (simp add: unat_sub_le unat_N)
    then have "unat (TX_BUFFER_SIZE - current_offset) \<le> unat len"
      using w by simp
    then have g: "unat (len - (TX_BUFFER_SIZE - current_offset)) =
        unat len - (4096 - unat current_offset)"
      by (simp add: unat_sub_le f)
    show ?thesis
      using True co len d w
      by (simp add: tx_copy_payload_def Let_def memcpy_def f g tx_buffer_ptr_def
          TOTAL_SHARED_MEMORY_SIZE_def unat_N) arith
  next
    case False
    then have "unat current_offset + unat len \<le> 4096"
      by (simp add: word_less_nat_alt s unat_N)
    then show ?thesis
      using False d
      by (simp add: tx_copy_payload_def memcpy_def tx_buffer_ptr_def
          TOTAL_SHARED_MEMORY_SIZE_def unat_N)
  qed
qed

lemma int_nat_cmp:
  fixes a b :: nat
  shows "(int a < int b + 2) = (a < b + 2)"
    and "(int b + 2 \<le> int a) = (b + 2 \<le> a)"
    and "(4096 < int b + 2) = (4096 < b + 2)"
    and "(int b + 2 \<le> 4096) = (b + 2 \<le> 4096)"
  by linarith+

lemma host_chip_send_packet_contract:
  assumes len: "unat len + 2 < 2 ^ 32"
    and h: "host_tx_head s < TX_BUFFER_SIZE"
    and t: "BUS_READ_REG s CHIP_REG_TX_TAIL_PTR < TX_BUFFER_SIZE"
    and d: "unat len \<le> length data"
  shows "(uint TX_BUFFER_SIZE < uint len + 2 \<longrightarrow>
            host_chip_send_packet s data len =
              Inr (- 1, s, [HOST_TX_ERR_TooLarge (len + PACKET_LENGTH_FIELD_SIZE)])) \<and>
         (uint len + 2 \<le> uint TX_BUFFER_SIZE \<and>
          free_spec (host_tx_head s) (BUS_READ_REG s CHIP_REG_TX_TAIL_PTR) < uint len + 2 \<longrightarrow>
            host_chip_send_packet s data len =
              Inr (- 2, s, [HOST_TX_ERR_NoSpace
                 (tx_space_available (host_tx_head s) (BUS_READ_REG s CHIP_REG_TX_TAIL_PTR))
                 (len + PACKET_LENGTH_FIELD_SIZE)])) \<and>
         (uint len + 2 \<le> uint TX_BUFFER_SIZE \<and>
          uint len + 2 \<le> free_spec (host_tx_head s) (BUS_READ_REG s CHIP_REG_TX_TAIL_PTR) \<longrightarrow>
            (\<exists>s' out. host_chip_send_packet s data len = Inr (0, s', out) \<and>
               host_tx_head s' = (host_tx_head s + (len + PACKET_LENGTH_FIELD_SIZE)) mod TX_BUFFER_SIZE \<and>
               BUS_READ_REG s' CHIP_REG_HOST_TX_HEAD_PUB = host_tx_head s'))"
proof -
  let ?tot = "len + PACKET_LENGTH_FIELD_SIZE"
  let ?sp = "tx_space_available (host_tx_head s) (BUS_READ_REG s CHIP_REG_TX_TAIL_PTR)"
  have tot: "unat ?tot = unat len + 2"
    using len by (simp add: unat_add_lt unat_FIELD)
  have ul: "uint len = int (unat len)"
    by simp
  have uN: "uint TX_BUFFER_SIZE = 4096"
    by (simp add: TX_BUFFER_SIZE_def)
  have "(?tot > TX_BUFFER_SIZE) = (4096 < unat len + 2)"
    by (simp add: word_less_nat_alt tot unat_N)
  also have "\<dots> = (uint TX_BUFFER_SIZE < uint len + 2)"
    unfolding ul uN by (rule int_nat_cmp(3) [symmetric])
  finally have c1: "(?tot > TX_BUFFER_SIZE) = (uint TX_BUFFER_SIZE < uint len + 2)" .
  have fs: "free_spec (host_tx_head s) (BUS_READ_REG s CHIP_REG_TX_TAIL_PTR) = int (unat ?sp)"
    using tx_space_available_free_spec [OF h t] by simp
  have c2: "(?sp < ?tot) =
      (free_spec (host_tx_head s) (BUS_READ_REG s CHIP_REG_TX_TAIL_PTR) < uint len + 2)"
    unfolding fs ul by (simp only: int_nat_cmp word_less_nat_alt tot)
  from h have hn: "unat (host_tx_head s) < 4096"
    by (simp add: unat_less_N)
  obtain m1 where st:
    "store_u16 (ram s) (tx_buffer_ptr + unat (host_tx_head s)) (ucast len) = Inr m1"
    using hn by (simp add: store_u16_def TOTAL_SHARED_MEMORY_SIZE_def tx_buffer_ptr_def unat_N)
  have co: "unat ((host_tx_head s + PACKET_LENGTH_FIELD_SIZE) mod TX_BUFFER_SIZE) < 4096"
    using unat_advance(2) [of "host_tx_head s" PACKET_LENGTH_FIELD_SIZE] hn
    by (simp add: unat_FIELD)
  show ?thesis
  proof (intro conjI impI)
    assume "uint TX_BUFFER_SIZE < uint len + 2"
    then show "host_chip_send_packet s data len = Inr (- 1, s, [HOST_TX_ERR_TooLarge ?tot])"
      by (simp add: host_chip_send_packet_def Let_def c1)
  next
    assume "uint len + 2 \<le> uint TX_BUFFER_SIZE \<and>
      free_spec (host_tx_head s) (BUS_READ_REG s CHIP_REG_TX_TAIL_PTR) < uint len + 2"
    then show "host_chip_send_packet s data len = Inr (- 2, s, [HOST_TX_ERR_NoSpace ?sp ?tot])"
      by (simp add: host_chip_send_packet_def Let_def c1 c2)
  next
    assume a: "uint len + 2 \<le> uint TX_BUFFER_SIZE \<and>
      uint len + 2 \<le> free_spec (host_tx_head s) (BUS_READ_REG s CHIP_REG_TX_TAIL_PTR)"
    then have "unat len + 2 \<le> 4096"
      unfolding ul uN by (simp only: int_nat_cmp)
    from tx_copy_payload_in_bounds [OF co this d]
    obtain m2 where m2: "tx_copy_payload m1
        ((host_tx_head s + PACKET_LENGTH_FIELD_SIZE) mod TX_BUFFER_SIZE) data len = Inr m2"
      by blast
    let ?head' = "(host_tx_head s + ?tot) mod TX_BUFFER_SIZE"
    have eq: "host_chip_send_packet s data len =
        Inr (0, BUS_WRITE_REG (s\<lparr>ram := m2, host_tx_head := ?head'\<rparr>)
                  CHIP_REG_HOST_TX_HEAD_PUB ?head',
             [HOST_TX_Sent len ?head'])"
      using a by (simp add: host_chip_send_packet_def Let_def c1 c2 st m2 BUS_WRITE_REG_def)
    show "\<exists>s' out. host_chip_send_packet s data len = Inr (0, s', out) \<and>
        host_tx_head s' = (host_tx_head s + ?tot) mod TX_BUFFER_SIZE \<and>
        BUS_READ_REG s' CHIP_REG_HOST_TX_HEAD_PUB = host_tx_head s'"
      unfolding eq by (simp add: reg_defs)
  qed
qed

section \<open>The receive loop on a ring of frames\<close>

lemma rx_received_append: "rx_received (xs @ ys) = rx_received xs @ rx_received ys"
  by (induction xs rule: rx_received.induct) simp_all

lemma rx_drain_loop_frames:
  assumes hn: "unat (BUS_READ_REG s CHIP_REG_RX_HEAD_PTR) < 4096"
  shows "unat t < 4096 \<Longrightarrow> rx_frames_at (ram s) t Ls \<Longrightarrow>
    ring_used (unat (BUS_READ_REG s CHIP_REG_RX_HEAD_PTR)) (unat t) \<le> frames_size Ls \<Longrightarrow>
    \<exists>k out'. k \<le> length Ls \<and>
      rx_drain_loop s t (BUS_READ_REG s CHIP_REG_RX_HEAD_PTR) out =
        Some (Inr (rx_boundaries t Ls ! k, out @ out')) \<and>
      rx_received out' = take k Ls \<and>
      frames_size (take k Ls) \<le>
        ring_used (unat (BUS_READ_REG s CHIP_REG_RX_HEAD_PTR)) (unat t) \<and>
      (k < length Ls \<longrightarrow>
         ring_used (unat (BUS_READ_REG s CHIP_REG_RX_HEAD_PTR)) (unat t) - frames_size (take k Ls)
           < unat (Ls ! k) + 2) \<and>
      (ring_used (unat (BUS_READ_REG s CHIP_REG_RX_HEAD_PTR)) (unat t) = frames_size Ls \<longrightarrow>
         k = length Ls \<and> rx_boundaries t Ls ! k = BUS_READ_REG s CHIP_REG_RX_HEAD_PTR)"
proof (induction Ls arbitrary: t out)
  case Nil
  let ?h = "BUS_READ_REG s CHIP_REG_RX_HEAD_PTR"
  from Nil have "ring_used (unat ?h) (unat t) = 0" by simp
  then have "unat ?h = unat t"
    using hn Nil.prems(1) by (simp add: ring_used_zero)
  then have "t = ?h"
    by (simp add: word_unat_eq_iff)
  then show ?case
    using rx_drain_loop_step [OF Nil.prems(1) hn, of s out] by simp
next
  case (Cons L Ls)
  let ?h = "BUS_READ_REG s CHIP_REG_RX_HEAD_PTR"
  let ?t' = "(t + (ucast L + PACKET_LENGTH_FIELD_SIZE)) mod RX_BUFFER_SIZE"
  note step = rx_drain_loop_step [OF Cons.prems(1) hn, of s out]
  from Cons.prems(2) have L: "rx_read_header (ram s) t = Inr L"
    and rest: "rx_frames_at (ram s) ?t' Ls"
    by simp_all
  show ?case
  proof (cases "t = ?h \<or> ring_used (unat ?h) (unat t) < unat L + 2")
    case True
    then have "\<exists>out'. rx_drain_loop s t ?h out = Some (Inr (t, out @ out')) \<and> rx_received out' = []"
      by (auto simp: step L)
    moreover have "ring_used (unat ?h) (unat t) \<noteq> frames_size (L # Ls)"
      using True hn Cons.prems(1) by (auto simp: ring_used_def)
    moreover have "ring_used (unat ?h) (unat t) < unat L + 2"
      using True by (auto simp: ring_used_def)
    ultimately show ?thesis
      by (intro exI [of _ 0]) auto
  next
    case False
    then have enough: "unat L + 2 \<le> ring_used (unat ?h) (unat t)" by simp
    have "unat L < 65536"
      using unsigned_less [of L, where 'a = nat] by simp
    then have "unat t + unat (ucast L + PACKET_LENGTH_FIELD_SIZE :: u32) < 2 ^ 32"
      using Cons.prems(1) by (simp add: unat_total_packet_len)
    then have t': "unat ?t' = (unat t + (unat L + 2)) mod 4096"
      by (simp add: unat_advance(1) unat_total_packet_len)
    then have b: "unat ?t' < 4096" by simp
    have u: "ring_used (unat ?h) (unat ?t') = ring_used (unat ?h) (unat t) - (unat L + 2)"
      unfolding t' using hn Cons.prems(1) enough by (intro ring_used_advance) simp_all
    then have le: "ring_used (unat ?h) (unat ?t') \<le> frames_size Ls"
      using Cons.prems(3) by simp
    let ?m = "HOST_RX_Received L ((t + PACKET_LENGTH_FIELD_SIZE) mod RX_BUFFER_SIZE)
       (ram s (rx_buffer_ptr + unat ((t + PACKET_LENGTH_FIELD_SIZE) mod RX_BUFFER_SIZE)))"
    from Cons.IH [OF b rest le, of "out @ [?m]"]
    obtain k out' where k: "k \<le> length Ls"
      and r: "rx_drain_loop s ?t' ?h (out @ [?m]) =
          Some (Inr (rx_boundaries ?t' Ls ! k, (out @ [?m]) @ out'))"
      and rc: "rx_received out' = take k Ls"
      and fs: "frames_size (take k Ls) \<le> ring_used (unat ?h) (unat ?t')"
      and nx: "k < length Ls \<longrightarrow>
          ring_used (unat ?h) (unat ?t') - frames_size (take k Ls) < unat (Ls ! k) + 2"
      and ex: "ring_used (unat ?h) (unat ?t') = frames_size Ls \<longrightarrow>
          k = length Ls \<and> rx_boundaries ?t' Ls ! k = ?h"
      by blast
    have 4: "frames_size (take (Suc k) (L # Ls)) \<le> ring_used (unat ?h) (unat t)"
      using fs u enough by simp
    have 5: "Suc k < length (L # Ls) \<longrightarrow>
        ring_used (unat ?h) (unat t) - frames_size (take (Suc k) (L # Ls))
          < unat ((L # Ls) ! Suc k) + 2"
      using nx u enough by simp
    have 1: "rx_drain_loop s t ?h out =
        Some (Inr (rx_boundaries t (L # Ls) ! Suc k, out @ (?m # out')))"
      using False enough r by (simp add: step L)
    have 2: "rx_received (?m # out') = take (Suc k) (L # Ls)"
      using rc by simp
    have 3: "ring_used (unat ?h) (unat t) = frames_size (L # Ls) \<longrightarrow>
        Suc k = length (L # Ls) \<and> rx_boundaries t (L # Ls) ! Suc k = ?h"
    proof
      assume "ring_used (unat ?h) (unat t) = frames_size (L # Ls)"
      then have "ring_used (unat ?h) (unat ?t') = frames_size Ls"
        using u by simp
      with ex show "Suc k = length (L # Ls) \<and> rx_boundaries t (L # Ls) ! Suc k = ?h"
        by auto
    qed
    show ?thesis
      using k 1 2 3 4 5 by (intro exI [of _ "Suc k"] exI [of _ "?m # out'"]) auto
  qed
qed

lemma rx_drain_loop_oversize_header:
  assumes hn: "unat h < 4096" and tn: "unat t < 4096"
    and ne: "t \<noteq> h" and two: "2 \<le> ring_used (unat h) (unat t)"
    and L: "rx_read_header (ram s) t = Inr L"
    and big: "unat RX_BUFFER_SIZE - 3 < unat L"
  shows "rx_drain_loop s t h out =
    Some (Inr (t, out @ [HOST_RX_Partial (rx_bytes_available h t)
                           (ucast L + PACKET_LENGTH_FIELD_SIZE)]))"
proof -
  have "ring_used (unat h) (unat t) < 4096"
    using hn tn by (rule ring_used_less)
  then have "ring_used (unat h) (unat t) < unat L + 2"
    using big by (simp add: unat_N)
  then show ?thesis
    using ne two by (simp add: rx_drain_loop_step [OF tn hn] L)
qed

lemma rx_boundaries_not_Nil: "rx_boundaries t Ls \<noteq> []"
  by (cases Ls) simp_all

lemma rx_drain_loop_frames_then_oversize:
  assumes hn: "unat (BUS_READ_REG s CHIP_REG_RX_HEAD_PTR) < 4096"
    and big: "unat RX_BUFFER_SIZE - 3 < unat L"
  shows "unat t < 4096 \<Longrightarrow> rx_frames_at (ram s) t Ls \<Longrightarrow>
    frames_size Ls + 2 \<le> ring_used (unat (BUS_READ_REG s CHIP_REG_RX_HEAD_PTR)) (unat t) \<Longrightarrow>
    rx_read_header (ram s) (last (rx_boundaries t Ls)) = Inr L \<Longrightarrow>
    \<exists>msgs. rx_drain_loop s t (BUS_READ_REG s CHIP_REG_RX_HEAD_PTR) out =
        Some (Inr (last (rx_boundaries t Ls),
          out @ msgs @
            [HOST_RX_Partial
               (rx_bytes_available (BUS_READ_REG s CHIP_REG_RX_HEAD_PTR)
                  (last (rx_boundaries t Ls)))
               (ucast L + PACKET_LENGTH_FIELD_SIZE)])) \<and>
      rx_received msgs = Ls \<and> length msgs = length Ls \<and> \<not> list_ex is_error_report msgs"
proof (induction Ls arbitrary: t out)
  case Nil
  let ?h = "BUS_READ_REG s CHIP_REG_RX_HEAD_PTR"
  from Nil.prems(3) have two: "2 \<le> ring_used (unat ?h) (unat t)" by simp
  then have ne: "t \<noteq> ?h" by (auto simp: ring_used_def)
  from Nil.prems(4) have L: "rx_read_header (ram s) t = Inr L" by simp
  have "rx_drain_loop s t ?h out =
      Some (Inr (t, out @ [HOST_RX_Partial (rx_bytes_available ?h t)
        (ucast L + PACKET_LENGTH_FIELD_SIZE)]))"
    using hn Nil.prems(1) ne two L big by (rule rx_drain_loop_oversize_header)
  then show ?case
    by (intro exI [of _ "[]"]) simp
next
  case (Cons L0 Ls)
  let ?h = "BUS_READ_REG s CHIP_REG_RX_HEAD_PTR"
  let ?t' = "(t + (ucast L0 + PACKET_LENGTH_FIELD_SIZE)) mod RX_BUFFER_SIZE"
  note step = rx_drain_loop_step [OF Cons.prems(1) hn, of s out]
  from Cons.prems(2) have L0: "rx_read_header (ram s) t = Inr L0"
    and rest: "rx_frames_at (ram s) ?t' Ls"
    by simp_all
  from Cons.prems(3) have enough: "unat L0 + 2 \<le> ring_used (unat ?h) (unat t)" by simp
  then have ne: "t \<noteq> ?h" by (auto simp: ring_used_def)
  have "unat L0 < 65536"
    using unsigned_less [of L0, where 'a = nat] by simp
  then have "unat t + unat (ucast L0 + PACKET_LENGTH_FIELD_SIZE :: u32) < 2 ^ 32"
    using Cons.prems(1) by (simp add: unat_total_packet_len)
  then have t': "unat ?t' = (unat t + (unat L0 + 2)) mod 4096"
    by (simp add: unat_advance(1) unat_total_packet_len)
  then have b: "unat ?t' < 4096" by simp
  have u: "ring_used (unat ?h) (unat ?t') = ring_used (unat ?h) (unat t) - (unat L0 + 2)"
    unfolding t' using hn Cons.prems(1) enough by (intro ring_used_advance) simp_all
  then have le: "frames_size Ls + 2 \<le> ring_used (unat ?h) (unat ?t')"
    using Cons.prems(3) by simp
  have lb: "last (rx_boundaries t (L0 # Ls)) = last (rx_boundaries ?t' Ls)"
    by (simp add: rx_boundaries_not_Nil)
  from Cons.prems(4) have Lh: "rx_read_header (ram s) (last (rx_boundaries ?t' Ls)) = Inr L"
    unfolding lb .
  let ?m = "HOST_RX_Received L0 ((t + PACKET_LENGTH_FIELD_SIZE) mod RX_BUFFER_SIZE)
     (ram s (rx_buffer_ptr + unat ((t + PACKET_LENGTH_FIELD_SIZE) mod RX_BUFFER_SIZE)))"
  from Cons.IH [OF b rest le Lh, of "out @ [?m]"]
  obtain msgs where r: "rx_drain_loop s ?t' ?h (out @ [?m]) =
        Some (Inr (last (rx_boundaries ?t' Ls),
          (out @ [?m]) @ msgs @
            [HOST_RX_Partial (rx_bytes_available ?h (last (rx_boundaries ?t' Ls)))
               (ucast L + PACKET_LENGTH_FIELD_SIZE)]))"
    and rc: "rx_received msgs = Ls" and ln: "length msgs = length Ls"
    and ne': "\<not> list_ex is_error_report msgs"
    by blast
  have 1: "rx_drain_loop s t ?h out =
      Some (Inr (last (rx_boundaries t (L0 # Ls)),
        out @ (?m # msgs) @
          [HOST_RX_Partial (rx_bytes_available ?h (last (rx_boundaries t (L0 # Ls))))
             (ucast L + PACKET_LENGTH_FIELD_SIZE)]))"
    unfolding lb using ne enough r by (simp add: step L0)
  show ?case
    using 1 rc ln ne' by (intro exI [of _ "?m # msgs"]) simp
qed

lemma rx_drain_loop_received_fit:
  assumes h: "unat (BUS_READ_REG s CHIP_REG_RX_HEAD_PTR) < 4096"
  shows "unat t < 4096 \<Longrightarrow>
    \<exists>t' out'. rx_drain_loop s t (BUS_READ_REG s CHIP_REG_RX_HEAD_PTR) out =
        Some (Inr (t', out @ out')) \<and>
      \<not> list_ex is_error_report out' \<and>
      (\<forall>L \<in> set (rx_received out'). unat L \<le> unat RX_BUFFER_SIZE - 3)"
proof (induction "ring_used (unat (BUS_READ_REG s CHIP_REG_RX_HEAD_PTR)) (unat t)"
    arbitrary: t out rule: less_induct)
  case less
  let ?h = "BUS_READ_REG s CHIP_REG_RX_HEAD_PTR"
  note step = rx_drain_loop_step [OF less.prems h, of s out]
  show ?case
  proof (cases "t = ?h \<or> ring_used (unat ?h) (unat t) < 2")
    case True
    then show ?thesis
      by (auto simp: step)
  next
    case False
    obtain L where L: "rx_read_header (ram s) t = Inr L"
      using rx_read_header_in_bounds [OF less.prems] by blast
    show ?thesis
    proof (cases "ring_used (unat ?h) (unat t) < unat L + 2")
      case True
      then show ?thesis
        using False by (auto simp: step L)
    next
      case enough: False
      let ?t' = "(t + (ucast L + PACKET_LENGTH_FIELD_SIZE)) mod RX_BUFFER_SIZE"
      let ?m = "HOST_RX_Received L ((t + PACKET_LENGTH_FIELD_SIZE) mod RX_BUFFER_SIZE)
         (ram s (rx_buffer_ptr + unat ((t + PACKET_LENGTH_FIELD_SIZE) mod RX_BUFFER_SIZE)))"
      have "ring_used (unat ?h) (unat t) < 4096"
        using h less.prems by (rule ring_used_less)
      with enough have fit: "unat L \<le> unat RX_BUFFER_SIZE - 3"
        by (simp add: unat_N)
      have "unat L < 65536"
        using unsigned_less [of L, where 'a = nat] by simp
      then have "unat t + unat (ucast L + PACKET_LENGTH_FIELD_SIZE :: u32) < 2 ^ 32"
        using less.prems by (simp add: unat_total_packet_len)
      then have t': "unat ?t' = (unat t + (unat L + 2)) mod 4096"
        by (simp add: unat_advance(1) unat_total_packet_len)
      then have b: "unat ?t' < 4096" by simp
      have u: "ring_used (unat ?h) (unat ?t') = ring_used (unat ?h) (unat t) - (unat L + 2)"
        unfolding t' using h less.prems enough by (intro ring_used_advance) simp_all
      then have "ring_used (unat ?h) (unat ?t') < ring_used (unat ?h) (unat t)"
        using enough by simp
      from less.hyps [OF this b, of "out @ [?m]"]
      obtain t'' out'' where r: "rx_drain_loop s ?t' ?h (out @ [?m]) =
          Some (Inr (t'', (out @ [?m]) @ out''))"
        and e: "\<not> list_ex is_error_report out''"
        and f: "\<forall>L \<in> set (rx_received out''). unat L \<le> unat RX_BUFFER_SIZE - 3"
        by blast
      have "rx_drain_loop s t ?h out = Some (Inr (t'', out @ (?m # out'')))"
        using False enough r by (simp add: step L)
      moreover have "\<not> list_ex is_error_report (?m # out'')"
        using e by simp
      moreover have "\<forall>L \<in> set (rx_received (?m # out'')). unat L \<le> unat RX_BUFFER_SIZE - 3"
        using f fit by simp
      ultimately show ?thesis by blast
    qed
  qed
qed

lemma host_chip_process_received_data_received_fit:
  assumes h: "BUS_READ_REG s CHIP_REG_RX_HEAD_PTR < RX_BUFFER_SIZE"
    and r: "host_chip_process_received_data s = Some (Inr (s', out))"
  shows "\<not> list_ex is_error_report out \<and>
    (\<forall>L \<in> set (rx_received out). unat L \<le> unat RX_BUFFER_SIZE - 3)"
proof (cases "unat (host_rx_tail s) < 4096")
  case True
  let ?h = "BUS_READ_REG s CHIP_REG_RX_HEAD_PTR"
  from h have hn: "unat ?h < 4096" by (simp add: unat_less_N)
  from rx_drain_loop_received_fit [OF hn True, of "[]"]
  obtain t' out' where l: "rx_drain_loop s (host_rx_tail s) ?h [] = Some (Inr (t', [] @ out'))"
    and e: "\<not> list_ex is_error_report out'"
    and f: "\<forall>L \<in> set (rx_received out'). unat L \<le> unat RX_BUFFER_SIZE - 3"
    by blast
  from r l have "out = out' @ [HOST_RX_Finished t']"
    by (simp add: host_chip_process_received_data_def Let_def)
  then show ?thesis
    using e f by (simp add: rx_received_append)
next
  case False
  let ?h = "BUS_READ_REG s CHIP_REG_RX_HEAD_PTR"
  let ?t = "host_rx_tail s"
  have "rx_drain_loop s ?t ?h [] = Some (Inr (?t, [])) \<or>
      rx_drain_loop s ?t ?h [] = Some (Inr (?t, [HOST_RX_NoHeader (rx_bytes_available ?h ?t)])) \<or>
      rx_drain_loop s ?t ?h [] = Some (Inl OutOfBounds)"
    using False
    by (subst (1 2 3) rx_drain_loop.simps) (simp add: Let_def rx_read_header_outside)
  with r show ?thesis
    by (auto simp: host_chip_process_received_data_def Let_def)
qed

lemma host_chip_process_received_data_frame_then_oversize:
  "host_chip_process_received_data rx_frame_then_oversize_state =
     Some (Inr ((BUS_WRITE_REG rx_frame_then_oversize_state CHIP_REG_HOST_RX_TAIL_PUB 4)
                  \<lparr>host_rx_tail := 4\<rparr>,
                [HOST_RX_Received 2 2 0xAA, HOST_RX_Partial 4 65537, HOST_RX_Finished 4]))"
  apply (simp add: run_defs rx_defs rx_frame_then_oversize_state_def)
  apply (subst rx_drain_loop.simps)
  apply (simp add: run_defs rx_defs rx_frame_then_oversize_state_def)
  apply (subst rx_drain_loop.simps)
  apply (simp add: run_defs rx_defs rx_frame_then_oversize_state_def)
  done

section \<open>Framing round trip below the last offset\<close>

text \<open>
  A send that starts at a head offset of at most \<open>N - 2\<close> and returns 0 leaves a frame that
  the consumer's header read parses back as the length sent, and the payload bytes stand, in
  order, at the offsets after the header, modulo the ring size.
\<close>

lemma u16_bytes:
  "(ucast (ucast v :: u8) :: u16) OR push_bit 8 (ucast (ucast (drop_bit 8 v) :: u8)) = v"
  for v :: u16
proof (rule bit_word_eqI)
  fix n
  assume "n < LENGTH(16)"
  then show "bit ((ucast (ucast v :: u8) :: u16) OR push_bit 8 (ucast (ucast (drop_bit 8 v) :: u8))) n
      = bit v n"
    by (auto simp: bit_simps)
qed

lemma tx_copy_payload_result:
  assumes co: "unat current_offset < 4096" and len: "unat len + 2 \<le> 4096"
    and d: "unat len \<le> length data"
  shows "tx_copy_payload m current_offset data len =
    Inr (if 4096 < unat current_offset + unat len
         then (\<lambda>a. if a < unat len - (4096 - unat current_offset)
                    then drop (4096 - unat current_offset) data ! a
                    else if unat current_offset \<le> a \<and> a < 4096
                      then data ! (a - unat current_offset) else m a)
         else (\<lambda>a. if unat current_offset \<le> a \<and> a < unat current_offset + unat len
                    then data ! (a - unat current_offset) else m a))"
proof -
  have "unat current_offset + unat len < 2 ^ 32"
    using co len by simp
  then have s: "unat (current_offset + len) = unat current_offset + unat len"
    by (rule unat_add_lt)
  show ?thesis
  proof (cases "current_offset + len > TX_BUFFER_SIZE")
    case True
    then have w: "4096 < unat current_offset + unat len"
      by (simp add: word_less_nat_alt s unat_N)
    have "unat current_offset \<le> unat TX_BUFFER_SIZE"
      using co by (simp add: unat_N)
    then have f: "unat (TX_BUFFER_SIZE - current_offset) = 4096 - unat current_offset"
      by (simp add: unat_sub_le unat_N)
    then have "unat (TX_BUFFER_SIZE - current_offset) \<le> unat len"
      using w by simp
    then have g: "unat (len - (TX_BUFFER_SIZE - current_offset)) =
        unat len - (4096 - unat current_offset)"
      by (simp add: unat_sub_le f)
    have b1: "unat current_offset + (4096 - unat current_offset) \<le> 8192"
      "4096 - unat current_offset \<le> length data"
      using co w d by arith+
    have b2: "unat len - (4096 - unat current_offset) \<le> 8192"
      "unat len - (4096 - unat current_offset) \<le> length data - (4096 - unat current_offset)"
      using len d by arith+
    have e: "unat current_offset + (4096 - unat current_offset) = 4096"
      using co by simp
    show ?thesis
      using True w b1 b2
      by (simp add: tx_copy_payload_def Let_def memcpy_def f g tx_buffer_ptr_def
          TOTAL_SHARED_MEMORY_SIZE_def unat_N e cong: if_cong)
  next
    case False
    then have le: "unat current_offset + unat len \<le> 4096"
      by (simp add: word_less_nat_alt s unat_N)
    then show ?thesis
      using False d
      by (simp add: tx_copy_payload_def memcpy_def tx_buffer_ptr_def
          TOTAL_SHARED_MEMORY_SIZE_def unat_N)
  qed
qed

lemma tx_copy_payload_effect:
  assumes co: "unat current_offset < 4096" and len: "unat len + 2 \<le> 4096"
    and d: "unat len \<le> length data"
    and r: "tx_copy_payload m current_offset data len = Inr m2"
  shows "i < unat len \<Longrightarrow> m2 ((unat current_offset + i) mod 4096) = data ! i"
    and "(\<And>i. i < unat len \<Longrightarrow> a \<noteq> (unat current_offset + i) mod 4096) \<Longrightarrow> m2 a = m a"
proof -
  let ?c = "unat current_offset"
  let ?n = "unat len"
  note res = tx_copy_payload_result [OF co len d, of m]
  show "m2 ((?c + i) mod 4096) = data ! i" if i: "i < ?n"
  proof (cases "4096 < ?c + ?n")
    case wrap: True
    then have m2: "m2 = (\<lambda>a. if a < ?n - (4096 - ?c) then drop (4096 - ?c) data ! a
        else if ?c \<le> a \<and> a < 4096 then data ! (a - ?c) else m a)"
      using r res by simp
    show ?thesis
    proof (cases "?c + i < 4096")
      case True
      then have e: "(?c + i) mod 4096 = ?c + i" by simp
      have "\<not> ?c + i < ?n - (4096 - ?c)"
        using len co by arith
      then show ?thesis
        unfolding e m2 using True by simp
    next
      case False
      then have "(?c + i) mod 4096 = (?c + i - 4096) mod 4096"
        by (simp add: le_mod_geq)
      moreover have "?c + i - 4096 < 4096"
        using co i len by arith
      ultimately have e: "(?c + i) mod 4096 = ?c + i - 4096" by simp
      have lt: "?c + i - 4096 < ?n - (4096 - ?c)"
        using False i co by arith
      have "4096 - ?c \<le> length data"
        using wrap d by arith
      then have "drop (4096 - ?c) data ! (?c + i - 4096) = data ! (4096 - ?c + (?c + i - 4096))"
        by (rule nth_drop)
      moreover have "4096 - ?c + (?c + i - 4096) = i"
        using False co by arith
      ultimately show ?thesis
        unfolding e m2 using lt by simp
    qed
  next
    case False
    then have m2: "m2 = (\<lambda>a. if ?c \<le> a \<and> a < ?c + ?n then data ! (a - ?c) else m a)"
      using r res by simp
    have "?c + i < 4096" using False i by arith
    then have e: "(?c + i) mod 4096 = ?c + i" by simp
    show ?thesis
      unfolding e m2 using i by simp
  qed
  show "m2 a = m a" if ne: "\<And>i. i < ?n \<Longrightarrow> a \<noteq> (?c + i) mod 4096"
  proof (cases "4096 < ?c + ?n")
    case wrap: True
    then have m2: "m2 = (\<lambda>a. if a < ?n - (4096 - ?c) then drop (4096 - ?c) data ! a
        else if ?c \<le> a \<and> a < 4096 then data ! (a - ?c) else m a)"
      using r res by simp
    have 1: "\<not> a < ?n - (4096 - ?c)"
    proof
      assume lt: "a < ?n - (4096 - ?c)"
      then have i: "a + (4096 - ?c) < ?n" by arith
      have "(?c + (a + (4096 - ?c))) mod 4096 = (a + 4096) mod 4096"
        using co by (intro arg_cong [where f = "\<lambda>x. x mod 4096"]) arith
      also have "\<dots> = a"
        using lt len by simp
      finally show False
        using ne [OF i] by simp
    qed
    have 2: "\<not> (?c \<le> a \<and> a < 4096)"
    proof
      assume b: "?c \<le> a \<and> a < 4096"
      then have i: "a - ?c < ?n" using wrap by arith
      have "(?c + (a - ?c)) mod 4096 = a"
        using b by simp
      then show False
        using ne [OF i] by simp
    qed
    show ?thesis
      unfolding m2 using 1 2 by auto
  next
    case False
    then have m2: "m2 = (\<lambda>a. if ?c \<le> a \<and> a < ?c + ?n then data ! (a - ?c) else m a)"
      using r res by simp
    have "\<not> (?c \<le> a \<and> a < ?c + ?n)"
    proof
      assume b: "?c \<le> a \<and> a < ?c + ?n"
      then have i: "a - ?c < ?n" by arith
      have "a < 4096" using b False by arith
      then have "(?c + (a - ?c)) mod 4096 = a"
        using b by simp
      then show False
        using ne [OF i] by simp
    qed
    then show ?thesis
      unfolding m2 by auto
  qed
qed

lemma mod_shift_ne:
  fixes a k n :: nat
  assumes "a < n" "0 < k" "k < n"
  shows "(a + k) mod n \<noteq> a"
proof (cases "a + k < n")
  case True
  then show ?thesis using assms by simp
next
  case False
  then have "(a + k) mod n = (a + k - n) mod n"
    by (simp add: le_mod_geq)
  moreover have "a + k - n < n"
    using assms by arith
  ultimately have "(a + k) mod n = a + k - n" by simp
  then show ?thesis using assms False by arith
qed

lemma host_chip_send_packet_round_trip:
  assumes h: "unat (host_tx_head s) + 2 \<le> 4096"
    and l: "unat len \<le> 65535"
    and d: "unat len \<le> length data"
    and r: "host_chip_send_packet s data len = Inr (0, s', out)"
  shows "tx_read_header (ram s') (host_tx_head s) = Inr (ucast len)"
    and "\<forall>i < unat len.
          ram s' (tx_buffer_ptr + (unat (host_tx_head s) + 2 + i) mod 4096) = data ! i"
proof -
  let ?h = "unat (host_tx_head s)"
  let ?co = "(host_tx_head s + PACKET_LENGTH_FIELD_SIZE) mod TX_BUFFER_SIZE"
  have tot: "unat (len + PACKET_LENGTH_FIELD_SIZE) = unat len + 2"
    using l by (simp add: unat_add_lt unat_FIELD)
  from r have nl: "\<not> len + PACKET_LENGTH_FIELD_SIZE > TX_BUFFER_SIZE"
    by (auto simp: host_chip_send_packet_def Let_def split: if_splits)
  then have len: "unat len + 2 \<le> 4096"
    by (simp add: word_less_nat_alt tot unat_N)
  from r have ns: "\<not> tx_space_available (host_tx_head s) (BUS_READ_REG s CHIP_REG_TX_TAIL_PTR)
      < len + PACKET_LENGTH_FIELD_SIZE"
    using nl by (auto simp: host_chip_send_packet_def Let_def split: if_splits)
  define m1 where "m1 = (ram s)(tx_buffer_ptr + ?h := ucast (ucast len :: u16),
      tx_buffer_ptr + ?h + 1 := ucast (drop_bit 8 (ucast len :: u16)))"
  have st: "store_u16 (ram s) (tx_buffer_ptr + ?h) (ucast len) = Inr m1"
    using h by (simp add: store_u16_def TOTAL_SHARED_MEMORY_SIZE_def tx_buffer_ptr_def unat_N
        m1_def)
  have "?h + unat PACKET_LENGTH_FIELD_SIZE < 2 ^ 32"
    using h by (simp add: unat_FIELD)
  then have co: "unat ?co = (?h + 2) mod 4096"
    by (simp add: unat_advance(2) unat_FIELD)
  then have cob: "unat ?co < 4096" by simp
  from tx_copy_payload_in_bounds [OF cob len d]
  obtain m2 where m2: "tx_copy_payload m1 ?co data len = Inr m2"
    by blast
  from r have s': "ram s' = m2"
    using nl ns by (auto simp: host_chip_send_packet_def Let_def st m2 BUS_WRITE_REG_def)
  note eff = tx_copy_payload_effect [OF cob len d m2]
  have pos: "(unat ?co + i) mod 4096 = (?h + 2 + i) mod 4096" for i
    unfolding co by (simp add: mod_add_left_eq)
  have k0: "m2 ?h = m1 ?h"
  proof (rule eff(2))
    fix i assume "i < unat len"
    then have "(?h + (2 + i)) mod 4096 \<noteq> ?h"
      using h len by (intro mod_shift_ne) simp_all
    then show "?h \<noteq> (unat ?co + i) mod 4096"
      unfolding pos by (simp add: add.assoc)
  qed
  have k1: "m2 (?h + 1) = m1 (?h + 1)"
  proof (rule eff(2))
    fix i assume "i < unat len"
    then have "(?h + 1 + (1 + i)) mod 4096 \<noteq> ?h + 1"
      using h len by (intro mod_shift_ne) simp_all
    then show "?h + 1 \<noteq> (unat ?co + i) mod 4096"
      unfolding pos by (simp add: add.assoc)
  qed
  have "?h + unat PACKET_LENGTH_FIELD_SIZE < 2 ^ 32"
    using h by (simp add: unat_FIELD)
  then have "unat (host_tx_head s + PACKET_LENGTH_FIELD_SIZE) = ?h + 2"
    by (simp add: unat_add_lt unat_FIELD)
  then have nw: "\<not> host_tx_head s + PACKET_LENGTH_FIELD_SIZE > TX_BUFFER_SIZE"
    using h by (simp add: word_less_nat_alt unat_N)
  have "tx_read_header m2 (host_tx_head s) =
      Inr (ucast (m2 ?h) OR push_bit 8 (ucast (m2 (?h + 1))))"
    using nw h by (simp add: tx_read_header_def load_u16_def tx_buffer_ptr_def
        TOTAL_SHARED_MEMORY_SIZE_def unat_N)
  also have "\<dots> = Inr (ucast len)"
    unfolding k0 k1 by (simp add: m1_def tx_buffer_ptr_def u16_bytes)
  finally show "tx_read_header (ram s') (host_tx_head s) = Inr (ucast len)"
    unfolding s' .
  show "\<forall>i < unat len. ram s' (tx_buffer_ptr + (?h + 2 + i) mod 4096) = data ! i"
    unfolding s' using eff(1) by (simp add: pos tx_buffer_ptr_def)
qed

section \<open>The producer and the consumer of the RX ring\<close>

text \<open>
  What \<open>chip_emulator_generate_rx\<close> writes when it returns: a header that the consumer reads
  back as the simulated length, and bytes at the offsets of the new frame only. Hence a ring
  that holds the frames \<open>Ls\<close> holds one more frame after a successful call (lemma
  \<open>chip_emulator_generate_rx_appends\<close>), and \<open>host_chip_process_received_data\<close> reports
  exactly the frames \<open>Ls\<close>, in order, and leaves the ring empty (lemma
  \<open>host_chip_process_received_data_delivers\<close>).
\<close>

lemma rx_fill_result:
  "off + n \<le> 4096 \<Longrightarrow>
   rx_fill m off rnd k n =
     Inr (\<lambda>a. if rx_buffer_ptr + off \<le> a \<and> a < rx_buffer_ptr + off + n
              then word_of_nat (rnd (k + (a - (rx_buffer_ptr + off))) mod 256) else m a)"
proof (induction n)
  case 0
  then show ?case by (auto simp: fun_eq_iff)
next
  case (Suc n)
  then have "off + n \<le> 4096" by simp
  note IH = Suc.IH [OF this]
  have b: "rx_buffer_ptr + (off + n) < TOTAL_SHARED_MEMORY_SIZE"
    using Suc.prems by (simp add: rx_buffer_ptr_def TOTAL_SHARED_MEMORY_SIZE_def unat_N)
  show ?case
    unfolding rx_fill.simps IH using b by (auto simp: fun_eq_iff less_Suc_eq)
qed

lemma rx_write_payload_effect:
  assumes co: "unat current_offset < 4096" and len: "unat L + 2 \<le> 4096"
  shows "\<exists>m2. rx_write_payload m current_offset rnd L = Inr m2 \<and>
    (\<forall>a. (\<forall>i < unat L. a \<noteq> rx_buffer_ptr + (unat current_offset + i) mod 4096) \<longrightarrow> m2 a = m a)"
proof -
  let ?c = "unat current_offset"
  let ?n = "unat L"
  have "?c + ?n < 2 ^ 32"
    using co len by simp
  then have s: "unat (current_offset + L) = ?c + ?n"
    by (rule unat_add_lt)
  show ?thesis
  proof (cases "current_offset + L > RX_BUFFER_SIZE")
    case True
    then have w: "4096 < ?c + ?n"
      by (simp add: word_less_nat_alt s unat_N)
    have "?c \<le> unat RX_BUFFER_SIZE"
      using co by (simp add: unat_N)
    then have f: "unat (RX_BUFFER_SIZE - current_offset) = 4096 - ?c"
      by (simp add: unat_sub_le unat_N)
    then have "unat (RX_BUFFER_SIZE - current_offset) \<le> ?n"
      using w by simp
    then have g: "unat (L - (RX_BUFFER_SIZE - current_offset)) = ?n - (4096 - ?c)"
      by (simp add: unat_sub_le f)
    have b1: "?c + (4096 - ?c) \<le> 4096"
      using co by simp
    have b2: "0 + (?n - (4096 - ?c)) \<le> 4096"
      using len by simp
    define m1 where "m1 = (\<lambda>a. if rx_buffer_ptr + ?c \<le> a \<and> a < rx_buffer_ptr + ?c + (4096 - ?c)
        then (word_of_nat (rnd (1 + (a - (rx_buffer_ptr + ?c))) mod 256) :: u8) else m a)"
    define m2 where "m2 = (\<lambda>a. if rx_buffer_ptr + 0 \<le> a \<and> a < rx_buffer_ptr + 0 + (?n - (4096 - ?c))
        then (word_of_nat (rnd (1 + (4096 - ?c) + (a - (rx_buffer_ptr + 0))) mod 256) :: u8)
        else m1 a)"
    have r: "rx_write_payload m current_offset rnd L = Inr m2"
      using True
      by (simp only: rx_write_payload_def Let_def if_True f g rx_fill_result [OF b1]
          rx_fill_result [OF b2] sum.case m1_def m2_def)
    have "m2 a = m a" if ne: "\<forall>i < ?n. a \<noteq> rx_buffer_ptr + (?c + i) mod 4096" for a
    proof -
      have 1: "\<not> (rx_buffer_ptr + 0 \<le> a \<and> a < rx_buffer_ptr + 0 + (?n - (4096 - ?c)))"
      proof
        assume b: "rx_buffer_ptr + 0 \<le> a \<and> a < rx_buffer_ptr + 0 + (?n - (4096 - ?c))"
        define j where "j = a - rx_buffer_ptr"
        have a: "a = rx_buffer_ptr + j" and lt: "j < ?n - (4096 - ?c)"
          using b unfolding j_def by arith+
        then have i: "j + (4096 - ?c) < ?n" by arith
        have "(?c + (j + (4096 - ?c))) mod 4096 = (j + 4096) mod 4096"
          using co by (intro arg_cong [where f = "\<lambda>x. x mod 4096"]) arith
        also have "\<dots> = j"
          using lt len by simp
        finally show False
          using ne i a by auto
      qed
      have 2: "\<not> (rx_buffer_ptr + ?c \<le> a \<and> a < rx_buffer_ptr + ?c + (4096 - ?c))"
      proof
        assume b: "rx_buffer_ptr + ?c \<le> a \<and> a < rx_buffer_ptr + ?c + (4096 - ?c)"
        define j where "j = a - rx_buffer_ptr"
        have a: "a = rx_buffer_ptr + j" and lt: "?c \<le> j \<and> j < 4096"
          using b co unfolding j_def by arith+
        then have i: "j - ?c < ?n" using w by arith
        have "(?c + (j - ?c)) mod 4096 = j"
          using lt by simp
        then show False
          using ne i a by auto
      qed
      show ?thesis
        unfolding m2_def m1_def using 1 2 by auto
    qed
    with r show ?thesis by blast
  next
    case False
    then have le: "?c + ?n \<le> 4096"
      by (simp add: word_less_nat_alt s unat_N)
    define m2 where "m2 = (\<lambda>a. if rx_buffer_ptr + ?c \<le> a \<and> a < rx_buffer_ptr + ?c + ?n
        then (word_of_nat (rnd (1 + (a - (rx_buffer_ptr + ?c))) mod 256) :: u8) else m a)"
    have r: "rx_write_payload m current_offset rnd L = Inr m2"
      using False by (simp only: rx_write_payload_def if_False rx_fill_result [OF le] m2_def)
    have "m2 a = m a" if ne: "\<forall>i < ?n. a \<noteq> rx_buffer_ptr + (?c + i) mod 4096" for a
    proof -
      have "\<not> (rx_buffer_ptr + ?c \<le> a \<and> a < rx_buffer_ptr + ?c + ?n)"
      proof
        assume b: "rx_buffer_ptr + ?c \<le> a \<and> a < rx_buffer_ptr + ?c + ?n"
        define j where "j = a - rx_buffer_ptr"
        have a: "a = rx_buffer_ptr + j" and lt: "?c \<le> j \<and> j < ?c + ?n"
          using b unfolding j_def by arith+
        then have i: "j - ?c < ?n" by arith
        have "j < 4096" using lt le by arith
        then have "(?c + (j - ?c)) mod 4096 = j"
          using lt by simp
        then show False
          using ne i a by auto
      qed
      then show ?thesis
        unfolding m2_def by auto
    qed
    with r show ?thesis by blast
  qed
qed

lemma rx_space_available_unat:
  assumes h: "unat head < 4096" and t: "unat tail < 4096"
  shows "unat (if head \<ge> tail then RX_BUFFER_SIZE - (head - tail) - 1 else (tail - head) - 1) =
    4095 - ring_used (unat head) (unat tail)"
proof -
  have "(if head \<ge> tail then RX_BUFFER_SIZE - (head - tail) - 1 else (tail - head) - 1) =
      tx_space_available head tail"
    by (simp add: tx_space_available_def TX_BUFFER_SIZE_def RX_BUFFER_SIZE_def)
  then show ?thesis
    using h t by (simp add: tx_space_available_unat ring_used_def)
qed

lemma chip_emulator_generate_rx_frame:
  assumes hn: "unat (chip_rx_head s) < 4096"
    and tn: "unat (BUS_READ_REG s CHIP_REG_HOST_RX_TAIL_PUB) < 4096"
    and r: "chip_emulator_generate_rx s rnd = Inr (s', out)"
    and w: "out \<noteq> []"
  shows "unat (rx_simulated_payload_len (rnd 0)) + 2 \<le>
      4095 - ring_used (unat (chip_rx_head s)) (unat (BUS_READ_REG s CHIP_REG_HOST_RX_TAIL_PUB))"
    and "unat (chip_rx_head s) + 2 \<le> 4096"
    and "rx_read_header (ram s') (chip_rx_head s) = Inr (ucast (rx_simulated_payload_len (rnd 0)))"
    and "\<forall>a. (\<forall>j < unat (rx_simulated_payload_len (rnd 0)) + 2.
            a \<noteq> rx_buffer_ptr + (unat (chip_rx_head s) + j) mod 4096) \<longrightarrow> ram s' a = ram s a"
    and "chip_rx_head s' =
      (chip_rx_head s + (rx_simulated_payload_len (rnd 0) + PACKET_LENGTH_FIELD_SIZE))
        mod RX_BUFFER_SIZE"
    and "BUS_READ_REG s' CHIP_REG_RX_HEAD_PTR = chip_rx_head s'"
    and "host_rx_tail s' = host_rx_tail s"
    and "BUS_READ_REG s' CHIP_REG_HOST_RX_TAIL_PUB = BUS_READ_REG s CHIP_REG_HOST_RX_TAIL_PUB"
proof -
  let ?h = "unat (chip_rx_head s)"
  let ?tp = "BUS_READ_REG s CHIP_REG_HOST_RX_TAIL_PUB"
  let ?L = "rx_simulated_payload_len (rnd 0)"
  let ?co = "(chip_rx_head s + PACKET_LENGTH_FIELD_SIZE) mod RX_BUFFER_SIZE"
  let ?sp = "if chip_rx_head s \<ge> ?tp then RX_BUFFER_SIZE - (chip_rx_head s - ?tp) - 1
      else (?tp - chip_rx_head s) - 1"
  have Ln: "unat ?L = rnd 0 mod 100 + 10"
    by (rule unat_rx_simulated_payload_len)
  have Lb: "unat ?L + 2 \<le> 4096"
    unfolding Ln using mod_less_divisor [of 100 "rnd 0"] by simp
  have tot: "unat (?L + PACKET_LENGTH_FIELD_SIZE) = unat ?L + 2"
    using Lb by (simp add: unat_add_lt unat_FIELD)
  have sp: "unat ?sp = 4095 - ring_used ?h (unat ?tp)"
    using hn tn by (rule rx_space_available_unat)
  from r w have ns: "\<not> ?sp < ?L + PACKET_LENGTH_FIELD_SIZE"
    by (auto simp: chip_emulator_generate_rx_def Let_def split: if_splits)
  then show space: "unat ?L + 2 \<le> 4095 - ring_used ?h (unat ?tp)"
    unfolding word_less_nat_alt tot sp by simp
  from r ns obtain m1 where st:
    "store_u16 (ram s) (rx_buffer_ptr + ?h) (ucast ?L) = Inr m1"
    by (auto simp: chip_emulator_generate_rx_def Let_def split: if_splits sum.splits)
  then have hb: "?h + 2 \<le> 4096"
    by (auto simp: store_u16_def TOTAL_SHARED_MEMORY_SIZE_def rx_buffer_ptr_def unat_N
        split: if_splits)
  then show "?h + 2 \<le> 4096" .
  from st have m1: "m1 = (ram s)(rx_buffer_ptr + ?h := ucast (ucast ?L :: u16),
      rx_buffer_ptr + ?h + 1 := ucast (drop_bit 8 (ucast ?L :: u16)))"
    by (auto simp: store_u16_def split: if_splits)
  have "?h + unat PACKET_LENGTH_FIELD_SIZE < 2 ^ 32"
    using hn by (simp add: unat_FIELD)
  then have co: "unat ?co = (?h + 2) mod 4096"
    by (simp add: unat_advance(1) unat_FIELD)
  then have cob: "unat ?co < 4096" by simp
  from rx_write_payload_effect [OF cob Lb, of m1 rnd]
  obtain m2 where m2: "rx_write_payload m1 ?co rnd ?L = Inr m2"
    and out: "\<And>a. (\<forall>i < unat ?L. a \<noteq> rx_buffer_ptr + (unat ?co + i) mod 4096) \<Longrightarrow> m2 a = m1 a"
    by blast
  let ?h' = "(chip_rx_head s + (?L + PACKET_LENGTH_FIELD_SIZE)) mod RX_BUFFER_SIZE"
  from r ns have s': "ram s' = m2 \<and> chip_rx_head s' = ?h' \<and>
      BUS_READ_REG s' CHIP_REG_RX_HEAD_PTR = ?h' \<and> host_rx_tail s' = host_rx_tail s \<and>
      BUS_READ_REG s' CHIP_REG_HOST_RX_TAIL_PUB = ?tp"
    by (auto simp: chip_emulator_generate_rx_def Let_def st m2 chip_raise_interrupt_def
        reg_defs split: if_splits)
  then show "chip_rx_head s' = ?h'" "BUS_READ_REG s' CHIP_REG_RX_HEAD_PTR = chip_rx_head s'"
    "host_rx_tail s' = host_rx_tail s" "BUS_READ_REG s' CHIP_REG_HOST_RX_TAIL_PUB = ?tp"
    by simp_all
  have pos: "(unat ?co + i) mod 4096 = (?h + 2 + i) mod 4096" for i
    unfolding co by (simp add: mod_add_left_eq)
  have k0: "m2 (rx_buffer_ptr + ?h) = m1 (rx_buffer_ptr + ?h)"
  proof (rule out, intro allI impI)
    fix i assume "i < unat ?L"
    then have "(?h + (2 + i)) mod 4096 \<noteq> ?h"
      using hn Lb by (intro mod_shift_ne) simp_all
    then show "rx_buffer_ptr + ?h \<noteq> rx_buffer_ptr + (unat ?co + i) mod 4096"
      unfolding pos by (simp add: add.assoc)
  qed
  have k1: "m2 (rx_buffer_ptr + ?h + 1) = m1 (rx_buffer_ptr + ?h + 1)"
  proof (rule out, intro allI impI)
    fix i assume "i < unat ?L"
    then have "(?h + 1 + (1 + i)) mod 4096 \<noteq> ?h + 1"
      using hb Lb by (intro mod_shift_ne) simp_all
    then show "rx_buffer_ptr + ?h + 1 \<noteq> rx_buffer_ptr + (unat ?co + i) mod 4096"
      unfolding pos by (simp add: add.assoc)
  qed
  have "?h + unat PACKET_LENGTH_FIELD_SIZE < 2 ^ 32"
    using hn by (simp add: unat_FIELD)
  then have "unat (chip_rx_head s + PACKET_LENGTH_FIELD_SIZE) = ?h + 2"
    by (simp add: unat_add_lt unat_FIELD)
  then have nw: "\<not> chip_rx_head s + PACKET_LENGTH_FIELD_SIZE > RX_BUFFER_SIZE"
    using hb by (simp add: word_less_nat_alt unat_N)
  have "rx_read_header m2 (chip_rx_head s) =
      Inr (ucast (m2 (rx_buffer_ptr + ?h)) OR push_bit 8 (ucast (m2 (rx_buffer_ptr + ?h + 1))))"
    using nw hb by (simp add: rx_read_header_def load_u16_def rx_buffer_ptr_def
        TOTAL_SHARED_MEMORY_SIZE_def unat_N)
  also have "\<dots> = Inr (ucast ?L)"
    unfolding k0 k1 by (simp add: m1 u16_bytes)
  finally show "rx_read_header (ram s') (chip_rx_head s) = Inr (ucast ?L)"
    using s' by simp
  show "\<forall>a. (\<forall>j < unat ?L + 2. a \<noteq> rx_buffer_ptr + (?h + j) mod 4096) \<longrightarrow> ram s' a = ram s a"
  proof (intro allI impI)
    fix a
    assume ne: "\<forall>j < unat ?L + 2. a \<noteq> rx_buffer_ptr + (?h + j) mod 4096"
    have "a \<noteq> rx_buffer_ptr + (?h + 0) mod 4096"
      using ne by (intro ne [rule_format]) simp
    then have a0: "a \<noteq> rx_buffer_ptr + ?h"
      using hn by simp
    have "a \<noteq> rx_buffer_ptr + (?h + 1) mod 4096"
      using Ln by (intro ne [rule_format]) simp
    then have a1: "a \<noteq> rx_buffer_ptr + ?h + 1"
      using hb by simp
    have "m2 a = m1 a"
    proof (rule out, intro allI impI)
      fix i assume "i < unat ?L"
      then have "a \<noteq> rx_buffer_ptr + (?h + (2 + i)) mod 4096"
        by (intro ne [rule_format]) simp
      then show "a \<noteq> rx_buffer_ptr + (unat ?co + i) mod 4096"
        unfolding pos by (simp add: add.assoc)
    qed
    then show "ram s' a = ram s a"
      using s' a0 a1 by (simp add: m1)
  qed
qed

lemma rx_read_header_cong:
  assumes t: "unat t < 4096"
    and 0: "m' (rx_buffer_ptr + unat t) = m (rx_buffer_ptr + unat t)"
    and 1: "m' (rx_buffer_ptr + (unat t + 1) mod 4096) = m (rx_buffer_ptr + (unat t + 1) mod 4096)"
  shows "rx_read_header m' t = rx_read_header m t"
proof -
  have "unat t + unat PACKET_LENGTH_FIELD_SIZE < 2 ^ 32"
    using t by (simp add: unat_FIELD)
  then have s: "unat (t + PACKET_LENGTH_FIELD_SIZE) = unat t + 2"
    by (simp add: unat_add_lt unat_FIELD)
  show ?thesis
  proof (cases "t + PACKET_LENGTH_FIELD_SIZE > RX_BUFFER_SIZE")
    case True
    then have "unat t = 4095"
      using t by (simp add: word_less_nat_alt s unat_N)
    then show ?thesis
      using True 0 1 by (simp add: rx_read_header_def load_u8_def)
  next
    case False
    then have "unat t + 1 < 4096"
      by (simp add: word_less_nat_alt s unat_N)
    then have "(unat t + 1) mod 4096 = unat t + 1" by simp
    then show ?thesis
      using False 0 1 by (simp add: rx_read_header_def load_u16_def add.assoc)
  qed
qed

lemma unat_next_boundary:
  assumes "unat t < 4096"
  shows "unat ((t + (ucast (L :: u16) + PACKET_LENGTH_FIELD_SIZE)) mod RX_BUFFER_SIZE) =
    (unat t + (unat L + 2)) mod 4096"
proof -
  have "unat L < 65536"
    using unsigned_less [of L, where 'a = nat] by simp
  then have "unat t + unat (ucast L + PACKET_LENGTH_FIELD_SIZE :: u32) < 2 ^ 32"
    using assms by (simp add: unat_total_packet_len)
  then show ?thesis
    by (simp add: unat_advance(1) unat_total_packet_len)
qed

lemma rx_frames_at_cong:
  "unat t < 4096 \<Longrightarrow> rx_frames_at m t Ls \<Longrightarrow>
   (\<forall>j < frames_size Ls. m' (rx_buffer_ptr + (unat t + j) mod 4096) =
      m (rx_buffer_ptr + (unat t + j) mod 4096)) \<Longrightarrow>
   rx_frames_at m' t Ls"
proof (induction Ls arbitrary: t)
  case Nil
  show ?case by simp
next
  case (Cons L Ls)
  let ?t' = "(t + (ucast L + PACKET_LENGTH_FIELD_SIZE)) mod RX_BUFFER_SIZE"
  note agree = Cons.prems(3) [rule_format]
  have "m' (rx_buffer_ptr + (unat t + 0) mod 4096) = m (rx_buffer_ptr + (unat t + 0) mod 4096)"
    by (rule agree) simp
  then have 0: "m' (rx_buffer_ptr + unat t) = m (rx_buffer_ptr + unat t)"
    using Cons.prems(1) by simp
  have 1: "m' (rx_buffer_ptr + (unat t + 1) mod 4096) = m (rx_buffer_ptr + (unat t + 1) mod 4096)"
    by (rule agree) simp
  have hd: "rx_read_header m' t = Inr L"
    using rx_read_header_cong [OF Cons.prems(1) 0 1] Cons.prems(2) by simp
  have t': "unat ?t' = (unat t + (unat L + 2)) mod 4096"
    using Cons.prems(1) by (rule unat_next_boundary)
  then have b: "unat ?t' < 4096" by simp
  have "rx_frames_at m' ?t' Ls"
  proof (rule Cons.IH [OF b], goal_cases)
    case 1
    show ?case using Cons.prems(2) by simp
  next
    case 2
    show ?case
    proof (intro allI impI)
      fix j assume j: "j < frames_size Ls"
      have e: "(unat ?t' + j) mod 4096 = (unat t + (unat L + 2 + j)) mod 4096"
        unfolding t' by (simp add: mod_add_left_eq add.assoc)
      show "m' (rx_buffer_ptr + (unat ?t' + j) mod 4096) =
          m (rx_buffer_ptr + (unat ?t' + j) mod 4096)"
        unfolding e using j by (intro agree) simp
    qed
  qed
  with hd show ?case by simp
qed

lemma rx_frames_at_append:
  "unat t < 4096 \<Longrightarrow> rx_frames_at m t Ls \<Longrightarrow>
   rx_read_header m (last (rx_boundaries t Ls)) = Inr L \<Longrightarrow>
   rx_frames_at m t (Ls @ [L])"
proof (induction Ls arbitrary: t)
  case Nil
  then show ?case by simp
next
  case (Cons K Ls)
  let ?t' = "(t + (ucast K + PACKET_LENGTH_FIELD_SIZE)) mod RX_BUFFER_SIZE"
  have "unat ?t' = (unat t + (unat K + 2)) mod 4096"
    using Cons.prems(1) by (rule unat_next_boundary)
  then have b: "unat ?t' < 4096" by simp
  have ne: "rx_boundaries ?t' Ls \<noteq> []"
    by (cases Ls) simp_all
  have "rx_frames_at m ?t' (Ls @ [L])"
    using Cons.prems ne by (intro Cons.IH [OF b]) simp_all
  then show ?case
    using Cons.prems(2) by simp
qed

lemma unat_last_boundary:
  "unat t < 4096 \<Longrightarrow>
   unat (last (rx_boundaries t Ls)) = (unat t + frames_size Ls) mod 4096"
proof (induction Ls arbitrary: t)
  case Nil
  then show ?case by simp
next
  case (Cons K Ls)
  let ?t' = "(t + (ucast K + PACKET_LENGTH_FIELD_SIZE)) mod RX_BUFFER_SIZE"
  have t': "unat ?t' = (unat t + (unat K + 2)) mod 4096"
    using Cons.prems(1) by (rule unat_next_boundary)
  then have b: "unat ?t' < 4096" by simp
  have ne: "rx_boundaries ?t' Ls \<noteq> []"
    by (cases Ls) simp_all
  have "unat (last (rx_boundaries t (K # Ls))) = unat (last (rx_boundaries ?t' Ls))"
    using ne by simp
  also have "\<dots> = (unat ?t' + frames_size Ls) mod 4096"
    by (rule Cons.IH [OF b])
  also have "\<dots> = (unat t + frames_size (K # Ls)) mod 4096"
    unfolding t' by (simp add: mod_add_left_eq add.assoc)
  finally show ?case .
qed

lemma ring_used_head:
  assumes "h < 4096" "t < 4096"
  shows "(t + ring_used h t) mod 4096 = h"
proof (cases "t \<le> h")
  case True
  then show ?thesis using assms by (simp add: ring_used_def)
next
  case False
  then have "t + ring_used h t = 4096 + h"
    using assms by (simp add: ring_used_def)
  then show ?thesis using assms by simp
qed

lemma ring_used_grow:
  assumes h: "h < 4096" and t: "t < 4096" and k: "ring_used h t + k < 4096"
  shows "ring_used ((h + k) mod 4096) t = ring_used h t + k"
proof (cases "t \<le> h")
  case True
  show ?thesis
  proof (cases "h + k < 4096")
    case lt: True
    then show ?thesis using True by (simp add: ring_used_def)
  next
    case ge: False
    then have "(h + k) mod 4096 = (h + k - 4096) mod 4096"
      by (simp add: le_mod_geq)
    moreover have "h + k - 4096 < 4096"
      using h k by arith
    ultimately have e: "(h + k) mod 4096 = h + k - 4096" by simp
    have "h + k - 4096 < t"
      using True k ge by (simp add: ring_used_def; arith)
    then show ?thesis
      unfolding e using True ge t by (simp add: ring_used_def; arith)
  qed
next
  case False
  then have "h + k < t"
    using k t by (simp add: ring_used_def; arith)
  then have e: "(h + k) mod 4096 = h + k"
    using t by simp
  show ?thesis
    unfolding e using False \<open>h + k < t\<close> t by (simp add: ring_used_def)
qed

lemma frames_size_append: "frames_size (xs @ ys) = frames_size xs + frames_size ys"
  by (induction xs) simp_all

lemma ring_regions_disjoint:
  fixes t u j j' :: nat
  assumes "j < u" "u + j' < 4096"
  shows "(t + j) mod 4096 \<noteq> ((t + u) mod 4096 + j') mod 4096"
proof -
  have "((t + u) mod 4096 + j') mod 4096 = (t + u + j') mod 4096"
    by (simp add: mod_add_left_eq)
  also have "t + u + j' = t + j + (u - j + j')"
    using assms by simp
  also have "(t + j + (u - j + j')) mod 4096 = ((t + j) mod 4096 + (u - j + j')) mod 4096"
    by (simp add: mod_add_left_eq)
  finally have e: "((t + u) mod 4096 + j') mod 4096 = ((t + j) mod 4096 + (u - j + j')) mod 4096" .
  have "((t + j) mod 4096 + (u - j + j')) mod 4096 \<noteq> (t + j) mod 4096"
    using assms by (intro mod_shift_ne) simp_all
  then show ?thesis
    unfolding e by simp
qed

lemma rx_ring_holds_init_state: "rx_ring_holds init_state []"
  by (simp add: rx_ring_holds_def run_defs ring_used_def)

lemma chip_emulator_generate_rx_appends:
  assumes inv: "rx_ring_holds s Ls"
    and r: "chip_emulator_generate_rx s rnd = Inr (s', out)"
    and w: "out \<noteq> []"
  shows "rx_ring_holds s' (Ls @ [ucast (rx_simulated_payload_len (rnd 0))])"
proof -
  let ?h = "chip_rx_head s"
  let ?t = "host_rx_tail s"
  let ?L = "rx_simulated_payload_len (rnd 0)"
  let ?n = "unat ?L + 2"
  let ?u = "ring_used (unat ?h) (unat ?t)"
  from inv have hn: "unat ?h < 4096" and tn: "unat ?t < 4096"
    and tp: "BUS_READ_REG s CHIP_REG_HOST_RX_TAIL_PUB = ?t"
    and fr: "rx_frames_at (ram s) ?t Ls" and sz: "frames_size Ls = ?u"
    by (simp_all add: rx_ring_holds_def unat_less_N)
  from tn tp have tn': "unat (BUS_READ_REG s CHIP_REG_HOST_RX_TAIL_PUB) < 4096" by simp
  note g = chip_emulator_generate_rx_frame [OF hn tn' r w]
  from g(1) have space: "?n \<le> 4095 - ?u" by (simp add: tp)
  have hu: "(unat ?t + ?u) mod 4096 = unat ?h"
    using hn tn by (rule ring_used_head)
  have agree: "\<forall>j < frames_size Ls. ram s' (rx_buffer_ptr + (unat ?t + j) mod 4096) =
      ram s (rx_buffer_ptr + (unat ?t + j) mod 4096)"
  proof (intro allI impI)
    fix j assume j: "j < frames_size Ls"
    show "ram s' (rx_buffer_ptr + (unat ?t + j) mod 4096) =
        ram s (rx_buffer_ptr + (unat ?t + j) mod 4096)"
    proof (rule g(4) [rule_format])
      fix j' assume j': "j' < ?n"
      have "(unat ?t + j) mod 4096 \<noteq> ((unat ?t + ?u) mod 4096 + j') mod 4096"
        using j j' space unfolding sz by (intro ring_regions_disjoint) simp_all
      then show "rx_buffer_ptr + (unat ?t + j) mod 4096 \<noteq>
          rx_buffer_ptr + (unat ?h + j') mod 4096"
        unfolding hu by simp
    qed
  qed
  have f1: "rx_frames_at (ram s') ?t Ls"
    using tn fr agree by (rule rx_frames_at_cong)
  have "unat (last (rx_boundaries ?t Ls)) = unat ?h"
    using unat_last_boundary [OF tn, of Ls] by (simp add: sz hu)
  then have "last (rx_boundaries ?t Ls) = ?h"
    by (simp add: word_unat_eq_iff)
  then have "rx_read_header (ram s') (last (rx_boundaries ?t Ls)) = Inr (ucast ?L)"
    using g(3) by simp
  with tn f1 have f2: "rx_frames_at (ram s') ?t (Ls @ [ucast ?L])"
    by (rule rx_frames_at_append)
  have Ln: "unat ?L = rnd 0 mod 100 + 10"
    by (rule unat_rx_simulated_payload_len)
  have "unat ?L < 2 ^ 16"
    unfolding Ln using mod_less_divisor [of 100 "rnd 0"] by simp
  then have uc: "unat (ucast ?L :: u16) = unat ?L"
    by (simp add: unsigned_ucast_eq take_bit_nat_eq_self)
  have "unat ?h + unat (?L + PACKET_LENGTH_FIELD_SIZE) < 2 ^ 32"
    using hn space by (simp add: unat_add_lt unat_FIELD)
  moreover have "unat (?L + PACKET_LENGTH_FIELD_SIZE) = ?n"
    using space by (simp add: unat_add_lt unat_FIELD)
  ultimately have h': "unat (chip_rx_head s') = (unat ?h + ?n) mod 4096"
    unfolding g(5) by (simp add: unat_advance(1))
  have "ring_used ((unat ?h + ?n) mod 4096) (unat ?t) = ?u + ?n"
    using hn tn space by (intro ring_used_grow) simp_all
  then have f3: "frames_size (Ls @ [ucast ?L]) = ring_used (unat (chip_rx_head s')) (unat ?t)"
    unfolding h' by (simp add: frames_size_append sz uc)
  have "chip_rx_head s' < RX_BUFFER_SIZE"
    unfolding g(5) by (rule mod_N_less)
  then show ?thesis
    using inv f2 f3 g(6) g(7) g(8)
    by (simp add: rx_ring_holds_def)
qed

lemma chip_emulator_generate_rx_no_frame:
  assumes "chip_emulator_generate_rx s rnd = Inr (s', [])"
  shows "s' = s"
  using assms
  by (auto simp: chip_emulator_generate_rx_def Let_def chip_raise_interrupt_def
      split: if_splits sum.splits)

lemma host_chip_process_received_data_delivers:
  assumes inv: "rx_ring_holds s Ls"
  shows "\<exists>s' out. host_chip_process_received_data s = Some (Inr (s', out)) \<and>
    rx_received out = Ls \<and> rx_ring_holds s' []"
proof -
  let ?h = "BUS_READ_REG s CHIP_REG_RX_HEAD_PTR"
  let ?t = "host_rx_tail s"
  from inv have hn: "unat ?h < 4096" and tn: "unat ?t < 4096"
    and hp: "?h = chip_rx_head s"
    and fr: "rx_frames_at (ram s) ?t Ls" and sz: "ring_used (unat ?h) (unat ?t) = frames_size Ls"
    by (simp_all add: rx_ring_holds_def unat_less_N)
  from sz have le: "ring_used (unat ?h) (unat ?t) \<le> frames_size Ls" by simp
  from rx_drain_loop_frames [OF hn tn fr le, of "[]"] sz
  obtain out' where r: "rx_drain_loop s ?t ?h [] = Some (Inr (?h, out'))"
    and rc: "rx_received out' = Ls"
    by auto
  let ?s' = "(BUS_WRITE_REG s CHIP_REG_HOST_RX_TAIL_PUB ?h)\<lparr>host_rx_tail := ?h\<rparr>"
  have 1: "host_chip_process_received_data s = Some (Inr (?s', out' @ [HOST_RX_Finished ?h]))"
    by (simp add: host_chip_process_received_data_def r Let_def)
  have 2: "rx_received (out' @ [HOST_RX_Finished ?h]) = Ls"
    by (simp add: rx_received_append rc)
  have 3: "rx_ring_holds ?s' []"
    using inv hn by (simp add: rx_ring_holds_def reg_defs ring_used_def unat_less_N)
  from 1 2 3 show ?thesis by blast
qed


section \<open>A frame sent into an empty TX ring\<close>

text \<open>
  Such a send into an empty TX ring is followed by a \<open>chip_emulator_process_tx\<close> that
  processes one frame of the length sent, whose first byte is the first payload byte, and
  moves the tail to the new head.
\<close>

lemma ucast_u16_u32:
  assumes "unat (len :: u32) < 65536"
  shows "(ucast (ucast len :: u16) :: u32) = len"
proof -
  have "unat (ucast len :: u16) = unat len"
    using assms by (simp add: unsigned_ucast_eq unsigned_take_bit_eq take_bit_nat_eq_self)
  then have "unat (ucast (ucast len :: u16) :: u32) = unat len"
    using assms by (simp add: unsigned_ucast_eq unsigned_take_bit_eq take_bit_nat_eq_self)
  then show ?thesis
    by (simp add: word_unat_eq_iff)
qed

lemma send_then_process_tx:
  assumes h: "unat (host_tx_head s) + 2 \<le> 4096"
    and emp: "chip_tx_tail s = host_tx_head s"
    and pub: "BUS_READ_REG s CHIP_REG_TX_TAIL_PTR = chip_tx_tail s"
    and l: "unat len \<le> 65535"
    and d: "unat len \<le> length data"
    and r: "host_chip_send_packet s data len = Inr (0, s', out)"
  shows "\<exists>s'' b rest. chip_emulator_process_tx s' =
        Inr (s'', CHIP_EMU_TX_Processing (ucast len) b # rest) \<and>
      chip_tx_tail s'' = host_tx_head s' \<and>
      BUS_READ_REG s'' CHIP_REG_TX_TAIL_PTR = host_tx_head s' \<and>
      (0 < unat len \<longrightarrow> b = data ! 0)"
proof -
  let ?h = "host_tx_head s"
  let ?tot = "len + PACKET_LENGTH_FIELD_SIZE"
  let ?h' = "(?h + ?tot) mod TX_BUFFER_SIZE"
  from h have hn: "unat ?h < 4096" by simp
  have tot: "unat ?tot = unat len + 2"
    using l by (simp add: unat_add_lt unat_FIELD)
  from r have nl: "\<not> ?tot > TX_BUFFER_SIZE"
    by (auto simp: host_chip_send_packet_def Let_def split: if_splits)
  from r have ns: "\<not> tx_space_available ?h (BUS_READ_REG s CHIP_REG_TX_TAIL_PTR) < ?tot"
    using nl by (auto simp: host_chip_send_packet_def Let_def split: if_splits)
  have "unat (tx_space_available ?h ?h) = 4095"
    using hn by (simp add: tx_space_available_unat)
  with ns have n: "unat len + 2 \<le> 4095"
    by (simp add: word_less_nat_alt tot pub emp)
  from r have s': "host_tx_head s' = ?h'" "BUS_READ_REG s' CHIP_REG_HOST_TX_HEAD_PUB = ?h'"
    "chip_tx_tail s' = ?h"
    using nl ns emp
    by (auto simp: host_chip_send_packet_def Let_def reg_defs split: if_splits sum.splits)
  note rt = host_chip_send_packet_round_trip [OF h l d r]
  have "unat ?h + unat ?tot < 2 ^ 32"
    using hn n by (simp add: tot)
  then have h': "unat ?h' = (unat ?h + (unat len + 2)) mod 4096"
    by (simp add: unat_advance(2) tot)
  then have h'n: "unat ?h' < 4096" by simp
  have "ring_used ((unat ?h + (unat len + 2)) mod 4096) (unat ?h) =
      ring_used (unat ?h) (unat ?h) + (unat len + 2)"
    using hn n by (intro ring_used_grow) (simp_all add: ring_used_def)
  then have av: "unat (tx_data_available ?h' ?h) = unat len + 2"
    using h'n hn by (simp add: tx_data_available_eq rx_bytes_available_ring_used h' ring_used_def)
  have uc: "(ucast (ucast len :: u16) :: u32) = len"
    using n by (intro ucast_u16_u32) simp
  have c1: "tx_data_available ?h' ?h > 0"
    using av by (simp add: word_less_nat_alt)
  have c2: "\<not> tx_data_available ?h' ?h < PACKET_LENGTH_FIELD_SIZE"
    using av by (simp add: word_less_nat_alt unat_FIELD)
  have c3: "\<not> tx_data_available ?h' ?h < ?tot"
    using av by (simp add: word_less_nat_alt tot)
  have "unat ((?h + PACKET_LENGTH_FIELD_SIZE) mod TX_BUFFER_SIZE) < 4096"
    using unat_advance(2) [of ?h PACKET_LENGTH_FIELD_SIZE] hn by (simp add: unat_FIELD)
  then have c4: "load_u8 (ram s')
      (tx_buffer_ptr + unat ((?h + PACKET_LENGTH_FIELD_SIZE) mod TX_BUFFER_SIZE)) =
      Inr (ram s' (tx_buffer_ptr + unat ((?h + PACKET_LENGTH_FIELD_SIZE) mod TX_BUFFER_SIZE)))"
    by (simp add: load_u8_def tx_buffer_ptr_def TOTAL_SHARED_MEMORY_SIZE_def unat_N)
  have co: "unat ((?h + PACKET_LENGTH_FIELD_SIZE) mod TX_BUFFER_SIZE) = (unat ?h + 2) mod 4096"
    using hn by (simp add: unat_advance(2) unat_FIELD)
  have b: "0 < unat len \<longrightarrow>
      ram s' (tx_buffer_ptr + unat ((?h + PACKET_LENGTH_FIELD_SIZE) mod TX_BUFFER_SIZE)) = data ! 0"
    using rt(2) by (auto simp: co)
  show ?thesis
    unfolding chip_emulator_process_tx_def Let_def s'
    using c1 c2 c3 b
    by (auto simp: rt(1) uc c4 chip_raise_interrupt_def reg_defs)
qed

section \<open>The interrupt handler and the status register\<close>

text \<open>Whatever the handler does, INT_STATUS is afterwards what it was before.\<close>

lemma host_chip_process_received_data_regs:
  assumes "host_chip_process_received_data s = Some (Inr (s', out))"
  shows "BUS_READ_REG s' CHIP_REG_INT_STATUS = BUS_READ_REG s CHIP_REG_INT_STATUS"
  using assms
  by (auto simp: host_chip_process_received_data_def Let_def reg_defs
      split: option.splits sum.splits)

lemma host_chip_irq_handler_keeps_INT_STATUS:
  assumes "host_chip_irq_handler s = Some (Inr (s', out))"
  shows "BUS_READ_REG s' CHIP_REG_INT_STATUS = BUS_READ_REG s CHIP_REG_INT_STATUS"
proof -
  let ?s0 = "BUS_WRITE_REG s CHIP_REG_INT_CLEAR CHIP_INT_RX_DATA_READY_BIT"
  have 0: "BUS_READ_REG ?s0 CHIP_REG_INT_STATUS = BUS_READ_REG s CHIP_REG_INT_STATUS"
    by (simp add: reg_defs)
  show ?thesis
    using assms host_chip_process_received_data_regs [of ?s0] 0
    by (auto simp: host_chip_irq_handler_def Let_def reg_defs
        split: if_splits option.splits sum.splits prod.splits)
qed

section \<open>The header store at the last byte of a ring\<close>

text \<open>
  C1 (framing round trip at every wrap offset). The claim asks that a frame written at any
  offset of the TX ring, the offset \<open>N - 1\<close> included, is parsed back by the consumer as the
  length and payload that were sent. \<open>host_chip_send_packet\<close> stores the header with one
  16-bit store, so at offset \<open>N - 1\<close> the high byte goes to the byte after the TX ring, while
  \<open>chip_emulator_process_tx\<close> takes the high byte from offset 0. In the run below the head
  reaches 4095 after one frame of 4093 bytes; the next frame has a payload of one byte, and
  the consumer's header read returns 0xFD01 = 64769: its high byte is the low byte of the first
  frame's header, still at offset 0.
\<close>

theorem C1_header_at_last_offset_not_parsed_back:
  "\<exists>s1 o1 s2 o2 s3 o3.
     host_chip_send_packet init_state (replicate 4093 0) 4093 = Inr (0, s1, o1) \<and>
     chip_emulator_process_tx s1 = Inr (s2, o2) \<and>
     host_tx_head s2 = TX_BUFFER_SIZE - 1 \<and> chip_tx_tail s2 = TX_BUFFER_SIZE - 1 \<and>
     host_chip_send_packet s2 [0x11] 1 = Inr (0, s3, o3) \<and>
     tx_read_header (ram s3) (chip_tx_tail s3) = Inr 0xFD01"
  by (simp add: run_defs)

text \<open>
  C2 (exact FIFO delivery). The claim asks that every payload whose send returned 0 is
  observed by \<open>chip_emulator_process_tx\<close> as one frame of the same bytes. In the run below two
  frames (256 and 3835 payload bytes) are sent and consumed, which leaves both indices at
  4095 and the byte at offset 0 equal to 0. The third send, 256 bytes of 0xAA, returns 0; the
  consumer then processes a frame of length 0 (the high byte 1 of the header went past the end
  of the ring), moves its tail to offset 1, inside the payload, and from there on consumes
  nothing: the 256 bytes are never delivered as a frame.
\<close>

theorem C2_sent_payload_not_delivered:
  "\<exists>s1 o1 s2 o2 s3 o3 s4 o4 s5 o5 s6.
     host_chip_send_packet init_state (replicate 256 0) 256 = Inr (0, s1, o1) \<and>
     host_chip_send_packet s1 (replicate 3835 0) 3835 = Inr (0, s2, o2) \<and>
     chip_emulator_process_tx s2 = Inr (s3, o3) \<and>
     chip_emulator_process_tx s3 = Inr (s4, o4) \<and>
     host_tx_head s4 = 4095 \<and> chip_tx_tail s4 = 4095 \<and>
     host_chip_send_packet s4 (replicate 256 0xAA) 256 = Inr (0, s5, o5) \<and>
     chip_emulator_process_tx s5 = Inr (s6, [CHIP_EMU_TX_Processing 0 0xAA]) \<and>
     chip_tx_tail s6 = 1 \<and>
     chip_emulator_process_tx s6 = Inr (s6, [])"
  by (simp add: run_defs)

text \<open>
  C9 (every store of a frame write stays inside its ring). At the head offset \<open>N - 1\<close> the
  16-bit header store addresses the offsets \<open>N - 1\<close> and \<open>N\<close>. On the TX side offset \<open>N\<close> is
  the first byte of the RX ring: below, the send of a payload of 257 bytes at head 4095 changes
  that byte from 0 to 1 (the high byte of the length). On the RX side offset \<open>N\<close> is the byte
  after \<open>simulated_shared_ram\<close>: \<open>chip_emulator_generate_rx\<close> with its head at 4095 stores
  outside the array, whatever \<open>rand\<close> returns.
\<close>

theorem C9_header_store_leaves_the_ring:
  "(\<exists>s1 o1 s2 o2 s3 o3.
      host_chip_send_packet init_state (replicate 4093 0) 4093 = Inr (0, s1, o1) \<and>
      chip_emulator_process_tx s1 = Inr (s2, o2) \<and>
      host_tx_head s2 = TX_BUFFER_SIZE - 1 \<and>
      host_chip_send_packet s2 (replicate 257 0xAA) 257 = Inr (0, s3, o3) \<and>
      ram s2 (tx_buffer_ptr + unat TX_BUFFER_SIZE) = 0 \<and>
      ram s3 (tx_buffer_ptr + unat TX_BUFFER_SIZE) = 1) \<and>
   chip_rx_head rx_wrap_state = RX_BUFFER_SIZE - 1 \<and>
   (\<forall>rnd. chip_emulator_generate_rx rx_wrap_state rnd = Inl OutOfBounds)"
proof (intro conjI allI)
  show "\<exists>s1 o1 s2 o2 s3 o3.
      host_chip_send_packet init_state (replicate 4093 0) 4093 = Inr (0, s1, o1) \<and>
      chip_emulator_process_tx s1 = Inr (s2, o2) \<and>
      host_tx_head s2 = TX_BUFFER_SIZE - 1 \<and>
      host_chip_send_packet s2 (replicate 257 0xAA) 257 = Inr (0, s3, o3) \<and>
      ram s2 (tx_buffer_ptr + unat TX_BUFFER_SIZE) = 0 \<and>
      ram s3 (tx_buffer_ptr + unat TX_BUFFER_SIZE) = 1"
    by (simp add: run_defs)
  show "chip_rx_head rx_wrap_state = RX_BUFFER_SIZE - 1"
    by (simp add: rx_wrap_state_def RX_BUFFER_SIZE_def)
  show "chip_emulator_generate_rx rx_wrap_state rnd = Inl OutOfBounds" for rnd
    by (rule chip_emulator_generate_rx_wrap_state)
qed

section \<open>The TX watermark\<close>

text \<open>
  C7 (TX_SPACE_AVAIL is raised exactly when the free space after a consumption has risen to
  the low watermark). \<open>chip_emulator_process_tx\<close> compares the watermark with
  \<open>tx_space_freed\<close>, which is the number of bytes still in use (and \<open>N\<close> for an empty ring),
  not the free space. In the first run below a frame of 3500 bytes and one of 6 bytes are in
  the ring, 589 bytes are free; the large frame is consumed, the free space rises to 4089,
  through the watermark of 1024, and no interrupt is raised. In the second run the same two
  frames are sent in the other order; the small one is consumed, the free space goes from 589
  to 595, still below the watermark, and the interrupt is raised.
\<close>

theorem C7_watermark_compares_bytes_in_use:
  "uint TX_LOW_WATERMARK_THRESHOLD = 1024 \<and>
   (\<exists>s1 o1 s2 o2 s3.
      host_chip_send_packet init_state (replicate 3498 0) 3498 = Inr (0, s1, o1) \<and>
      host_chip_send_packet s1 [5, 6, 7, 8] 4 = Inr (0, s2, o2) \<and>
      free_spec (BUS_READ_REG s2 CHIP_REG_HOST_TX_HEAD_PUB) (chip_tx_tail s2) = 589 \<and>
      chip_emulator_process_tx s2 = Inr (s3, [CHIP_EMU_TX_Processing 3498 0]) \<and>
      BUS_READ_REG s3 CHIP_REG_TX_TAIL_PTR = chip_tx_tail s3 \<and>
      free_spec (BUS_READ_REG s3 CHIP_REG_HOST_TX_HEAD_PUB) (chip_tx_tail s3) = 4089 \<and>
      BUS_READ_REG s3 CHIP_REG_INT_STATUS AND CHIP_INT_TX_SPACE_AVAIL_BIT = 0) \<and>
   (\<exists>s1 o1 s2 o2 s3.
      host_chip_send_packet init_state [1, 2, 3, 4] 4 = Inr (0, s1, o1) \<and>
      host_chip_send_packet s1 (replicate 3498 0) 3498 = Inr (0, s2, o2) \<and>
      free_spec (BUS_READ_REG s2 CHIP_REG_HOST_TX_HEAD_PUB) (chip_tx_tail s2) = 589 \<and>
      chip_emulator_process_tx s2 =
        Inr (s3, [CHIP_EMU_TX_Processing 4 1, CHIP_EMU_Raised CHIP_INT_TX_SPACE_AVAIL_BIT]) \<and>
      BUS_READ_REG s3 CHIP_REG_TX_TAIL_PTR = chip_tx_tail s3 \<and>
      free_spec (BUS_READ_REG s3 CHIP_REG_HOST_TX_HEAD_PUB) (chip_tx_tail s3) = 595 \<and>
      BUS_READ_REG s3 CHIP_REG_INT_STATUS AND CHIP_INT_TX_SPACE_AVAIL_BIT
        = CHIP_INT_TX_SPACE_AVAIL_BIT)"
  by (simp add: run_defs used_spec_def free_spec_def)

section \<open>Interrupt status and clear\<close>

text \<open>
  C8 (write-1-to-clear). The claim asks that a bit written to INT_CLEAR is no longer pending
  in INT_STATUS. A write to INT_CLEAR only stores the value in that register: nothing in
  chip_emulator.c reads it or changes INT_STATUS. Below the CHIP raises RX_DATA_READY, the
  handler runs and writes the bit to INT_CLEAR, and the bit is still pending in INT_STATUS and
  still enabled.
\<close>

theorem C8_bit_pending_after_clear:
  "\<exists>s1 o1 s2 o2.
     chip_raise_interrupt init_state CHIP_INT_RX_DATA_READY_BIT = (s1, o1) \<and>
     host_chip_irq_handler s1 = Some (Inr (s2, o2)) \<and>
     BUS_READ_REG s2 CHIP_REG_INT_CLEAR = CHIP_INT_RX_DATA_READY_BIT \<and>
     BUS_READ_REG s2 CHIP_REG_INT_STATUS AND CHIP_INT_RX_DATA_READY_BIT \<noteq> 0 \<and>
     BUS_READ_REG s2 CHIP_REG_INT_STATUS AND BUS_READ_REG s2 CHIP_REG_INT_ENABLE \<noteq> 0"
  apply (simp add: run_defs rx_defs)
  apply (subst rx_drain_loop.simps)
  apply (simp add: run_defs rx_defs)
  done

section \<open>The receive loop ends\<close>

text \<open>
  With the head register at 5000 and an RX ring of zero bytes the loop never returns from an
  even tail inside the ring: each header reads 0, two bytes are consumed, and the tail, taken
  modulo the ring size, never meets the head.
\<close>

lemma rx_drain_loop_head_outside:
  assumes "rx_drain_loop s0 t0 h0 out0 = Some r0"
  shows "\<not> (s0 = rx_head_outside_state \<and> h0 = 5000 \<and> even (unat t0) \<and> unat t0 < 4096)"
proof (rule rx_drain_loop.raw_induct [OF _ assms], goal_cases)
  case (1 f s t h out r)
  show ?case
  proof
    assume a: "s = rx_head_outside_state \<and> h = 5000 \<and> even (unat t) \<and> unat t < 4096"
    then have s: "s = rx_head_outside_state" and h: "h = 5000"
      and ev: "even (unat t)" and tn: "unat t < 4096"
      by simp_all
    have m: "ram s = (\<lambda>_. 0)" and hr: "BUS_READ_REG s CHIP_REG_RX_HEAD_PTR = 5000"
      by (simp_all add: s rx_head_outside_state_def run_defs)
    from tn have ne: "t \<noteq> h"
      unfolding h by (auto simp: word_unat_eq_iff)
    from tn have le: "t \<le> h"
      unfolding h by (simp add: word_le_nat_alt)
    have "unat (h - t) = unat h - unat t"
      using tn unfolding h by (intro unat_sub_le) simp
    then have av: "unat (rx_bytes_available h t) = 5000 - unat t"
      using le by (simp add: rx_bytes_available_def h)
    from ev tn have t2: "unat t + 2 \<le> 4096"
      by presburger
    then have "unat (t + PACKET_LENGTH_FIELD_SIZE) = unat t + 2"
      by (simp add: unat_add_lt unat_FIELD)
    with t2 have "\<not> t + PACKET_LENGTH_FIELD_SIZE > RX_BUFFER_SIZE"
      by (simp add: word_less_nat_alt unat_N)
    then have hd: "rx_read_header (ram s) t = Inr 0"
      using t2 by (simp add: rx_read_header_def load_u16_def m rx_buffer_ptr_def
          TOTAL_SHARED_MEMORY_SIZE_def unat_N)
    have c1: "\<not> rx_bytes_available h t < PACKET_LENGTH_FIELD_SIZE"
      using av tn by (simp add: word_less_nat_alt unat_FIELD)
    have c2: "\<not> rx_bytes_available h t < ucast (0 :: u16) + PACKET_LENGTH_FIELD_SIZE"
      using av tn by (simp add: word_less_nat_alt unat_FIELD)
    have "unat ((t + PACKET_LENGTH_FIELD_SIZE) mod RX_BUFFER_SIZE) < 4096"
      using unat_advance(1) [of t PACKET_LENGTH_FIELD_SIZE] tn by (simp add: unat_FIELD)
    then have c3: "load_u8 (ram s) (rx_buffer_ptr +
        unat ((t + PACKET_LENGTH_FIELD_SIZE) mod RX_BUFFER_SIZE)) = Inr 0"
      by (simp add: load_u8_def m rx_buffer_ptr_def TOTAL_SHARED_MEMORY_SIZE_def unat_N)
    let ?t' = "(t + (ucast (0 :: u16) + PACKET_LENGTH_FIELD_SIZE)) mod RX_BUFFER_SIZE"
    from 1(2) obtain out' where "f s ?t' 5000 out' = Some r"
      using ne c1 c2 by (simp add: Let_def hd c3 hr)
    from 1(1) [OF this] have n: "\<not> (even (unat ?t') \<and> unat ?t' < 4096)"
      using s by simp
    have "unat ?t' = (unat t + 2) mod 4096"
      using tn unat_advance(1) [of t "ucast (0 :: u16) + PACKET_LENGTH_FIELD_SIZE"]
      by (simp add: unat_FIELD)
    moreover have "even ((unat t + 2) mod 4096)"
      using ev by (simp add: dvd_mod_iff)
    ultimately show False
      using n by simp
  qed
qed

text \<open>
  The claim C10 asks that the loop of \<open>host_chip_process_received_data\<close> terminates for any
  fixed contents of the RX ring and of the \<open>RX_HEAD_PTR\<close> register. It does not for a register
  value outside the ring: with the register at 5000, the tail at 0 and a ring of zero bytes
  the function never returns. (The tail is the HOST's own index, which the loop keeps inside
  the ring; started from a tail outside the ring, here 4096 with the head at 10, the first
  header read leaves \<open>simulated_shared_ram\<close>.)
\<close>

theorem C10_head_outside_ring_never_ends:
  "BUS_READ_REG rx_head_outside_state CHIP_REG_RX_HEAD_PTR = 5000 \<and>
   \<not> BUS_READ_REG rx_head_outside_state CHIP_REG_RX_HEAD_PTR < RX_BUFFER_SIZE \<and>
   host_rx_tail rx_head_outside_state = 0 \<and>
   (\<forall>a. ram rx_head_outside_state a = 0) \<and>
   host_chip_process_received_data rx_head_outside_state = None \<and>
   BUS_READ_REG rx_tail_outside_state CHIP_REG_RX_HEAD_PTR = 10 \<and>
   host_rx_tail rx_tail_outside_state = 4096 \<and>
   \<not> host_rx_tail rx_tail_outside_state < RX_BUFFER_SIZE \<and>
   host_chip_process_received_data rx_tail_outside_state = Some (Inl OutOfBounds)"
proof (intro conjI allI)
  have "rx_drain_loop rx_head_outside_state 0 5000 [] = None"
    using rx_drain_loop_head_outside [of rx_head_outside_state 0 5000 "[]"]
    by (cases "rx_drain_loop rx_head_outside_state 0 5000 []") auto
  then show "host_chip_process_received_data rx_head_outside_state = None"
    by (simp add: host_chip_process_received_data_def rx_head_outside_state_def run_defs)
  show "host_chip_process_received_data rx_tail_outside_state = Some (Inl OutOfBounds)"
    apply (simp add: run_defs rx_defs rx_tail_outside_state_def)
    apply (subst rx_drain_loop.simps)
    apply (simp add: run_defs rx_defs rx_tail_outside_state_def)
    done
qed (simp_all add: rx_head_outside_state_def rx_tail_outside_state_def run_defs)

text \<open>
  C10 (drain termination), for a head register inside the ring. For any contents of the RX
  ring and any value of the \<open>RX_HEAD_PTR\<close> register in \<open>[0, N)\<close> the loop of
  \<open>host_chip_process_received_data\<close> ends; when the tail is inside the ring as well the
  function returns a state, without a fault, and its tail is inside the ring and no further
  from the head than the tail it started at. An iteration that consumes a frame (the head
  differs from the tail, the header reads \<open>L\<close> and \<open>L + 2\<close> bytes are available) goes on from
  the tail advanced by \<open>L + 2\<close> modulo the ring size, and there the available count is smaller
  by exactly \<open>L + 2\<close>, hence strictly smaller.
\<close>

theorem C10_drain_terminates:
  assumes h: "BUS_READ_REG s CHIP_REG_RX_HEAD_PTR < RX_BUFFER_SIZE"
  shows "(\<exists>r. host_chip_process_received_data s = Some r) \<and>
         (host_rx_tail s < RX_BUFFER_SIZE \<longrightarrow>
          (\<exists>s' out. host_chip_process_received_data s = Some (Inr (s', out)) \<and>
            host_rx_tail s' < RX_BUFFER_SIZE \<and>
            rx_bytes_available (BUS_READ_REG s CHIP_REG_RX_HEAD_PTR) (host_rx_tail s') \<le>
              rx_bytes_available (BUS_READ_REG s CHIP_REG_RX_HEAD_PTR) (host_rx_tail s))) \<and>
         (\<forall>tl L out. tl \<noteq> BUS_READ_REG s CHIP_REG_RX_HEAD_PTR \<and>
            rx_read_header (ram s) tl = Inr L \<and>
            unat L + 2 \<le> unat (rx_bytes_available (BUS_READ_REG s CHIP_REG_RX_HEAD_PTR) tl) \<longrightarrow>
            (\<exists>m. rx_drain_loop s tl (BUS_READ_REG s CHIP_REG_RX_HEAD_PTR) out =
                 rx_drain_loop s ((tl + (ucast L + PACKET_LENGTH_FIELD_SIZE)) mod RX_BUFFER_SIZE)
                   (BUS_READ_REG s CHIP_REG_RX_HEAD_PTR) (out @ [m])) \<and>
            (tl + (ucast L + PACKET_LENGTH_FIELD_SIZE)) mod RX_BUFFER_SIZE < RX_BUFFER_SIZE \<and>
            unat (rx_bytes_available (BUS_READ_REG s CHIP_REG_RX_HEAD_PTR)
                   ((tl + (ucast L + PACKET_LENGTH_FIELD_SIZE)) mod RX_BUFFER_SIZE)) =
              unat (rx_bytes_available (BUS_READ_REG s CHIP_REG_RX_HEAD_PTR) tl) - (unat L + 2) \<and>
            unat (rx_bytes_available (BUS_READ_REG s CHIP_REG_RX_HEAD_PTR)
                   ((tl + (ucast L + PACKET_LENGTH_FIELD_SIZE)) mod RX_BUFFER_SIZE)) <
              unat (rx_bytes_available (BUS_READ_REG s CHIP_REG_RX_HEAD_PTR) tl))"
proof (intro conjI allI impI)
  let ?h = "BUS_READ_REG s CHIP_REG_RX_HEAD_PTR"
  from h have hn: "unat ?h < 4096" by (simp add: unat_less_N)
  from rx_drain_loop_ends [OF hn, of "host_rx_tail s" "[]"]
  obtain r where "rx_drain_loop s (host_rx_tail s) ?h [] = Some r" by blast
  then show "\<exists>r. host_chip_process_received_data s = Some r"
    by (cases r) (auto simp: host_chip_process_received_data_def Let_def)
next
  let ?h = "BUS_READ_REG s CHIP_REG_RX_HEAD_PTR"
  assume t: "host_rx_tail s < RX_BUFFER_SIZE"
  from h have hn: "unat ?h < 4096" by (simp add: unat_less_N)
  from t have tn: "unat (host_rx_tail s) < 4096" by (simp add: unat_less_N)
  from rx_drain_loop_total [OF hn tn, of "[]"]
  obtain t' out' where r: "rx_drain_loop s (host_rx_tail s) ?h [] = Some (Inr (t', out'))"
    and t': "unat t' < 4096"
    and u: "ring_used (unat ?h) (unat t') \<le> ring_used (unat ?h) (unat (host_rx_tail s))"
    by blast
  have "rx_bytes_available ?h t' \<le> rx_bytes_available ?h (host_rx_tail s)"
    using u hn tn t' by (simp add: word_le_nat_alt rx_bytes_available_ring_used)
  then show "\<exists>s' out. host_chip_process_received_data s = Some (Inr (s', out)) \<and>
            host_rx_tail s' < RX_BUFFER_SIZE \<and>
            rx_bytes_available ?h (host_rx_tail s') \<le> rx_bytes_available ?h (host_rx_tail s)"
    using t' by (simp add: host_chip_process_received_data_def r Let_def unat_less_N)
next
  fix tl :: u32 and L :: u16 and out :: "msg list"
  let ?h = "BUS_READ_REG s CHIP_REG_RX_HEAD_PTR"
  let ?t' = "(tl + (ucast L + PACKET_LENGTH_FIELD_SIZE)) mod RX_BUFFER_SIZE"
  assume a: "tl \<noteq> ?h \<and> rx_read_header (ram s) tl = Inr L \<and>
    unat L + 2 \<le> unat (rx_bytes_available ?h tl)"
  from h have hn: "unat ?h < 4096" by (simp add: unat_less_N)
  from a have tn: "unat tl < 4096" by (auto intro: rx_read_header_in_ring)
  from a have enough: "unat L + 2 \<le> ring_used (unat ?h) (unat tl)"
    using hn tn by (simp add: rx_bytes_available_ring_used)
  have "unat L < 65536"
    using unsigned_less [of L, where 'a = nat] by simp
  then have "unat tl + unat (ucast L + PACKET_LENGTH_FIELD_SIZE :: u32) < 2 ^ 32"
    using tn by (simp add: unat_total_packet_len)
  then have t': "unat ?t' = (unat tl + (unat L + 2)) mod 4096"
    by (simp add: unat_advance(1) unat_total_packet_len)
  then have b: "unat ?t' < 4096" by simp
  have u: "ring_used (unat ?h) (unat ?t') = ring_used (unat ?h) (unat tl) - (unat L + 2)"
    unfolding t' using hn tn enough by (intro ring_used_advance) simp_all
  show "\<exists>m. rx_drain_loop s tl ?h out = rx_drain_loop s ?t' ?h (out @ [m])"
    using a enough by (subst rx_drain_loop_step [OF tn hn]) auto
  show "?t' < RX_BUFFER_SIZE"
    using b by (simp add: unat_less_N)
  show "unat (rx_bytes_available ?h ?t') = unat (rx_bytes_available ?h tl) - (unat L + 2)"
    using u hn tn b by (simp add: rx_bytes_available_ring_used)
  show "unat (rx_bytes_available ?h ?t') < unat (rx_bytes_available ?h tl)"
    using u enough hn tn b by (simp add: rx_bytes_available_ring_used)
qed

theorem C10_drain_terminates_witness:
  "BUS_READ_REG rx_frame_then_oversize_state CHIP_REG_RX_HEAD_PTR < RX_BUFFER_SIZE \<and>
   host_rx_tail rx_frame_then_oversize_state < RX_BUFFER_SIZE \<and>
   0 \<noteq> BUS_READ_REG rx_frame_then_oversize_state CHIP_REG_RX_HEAD_PTR \<and>
   rx_read_header (ram rx_frame_then_oversize_state) 0 = Inr 2 \<and>
   unat (2 :: u16) + 2 \<le>
     unat (rx_bytes_available (BUS_READ_REG rx_frame_then_oversize_state CHIP_REG_RX_HEAD_PTR) 0) \<and>
   host_chip_process_received_data rx_frame_then_oversize_state =
     Some (Inr ((BUS_WRITE_REG rx_frame_then_oversize_state CHIP_REG_HOST_RX_TAIL_PUB 4)
                  \<lparr>host_rx_tail := 4\<rparr>,
                [HOST_RX_Received 2 2 0xAA, HOST_RX_Partial 4 65537, HOST_RX_Finished 4])) \<and>
   (\<exists>s' out. host_chip_process_received_data rx_frame_then_oversize_state =
        Some (Inr (s', out)) \<and>
      host_rx_tail s' < RX_BUFFER_SIZE \<and>
      rx_bytes_available (BUS_READ_REG rx_frame_then_oversize_state CHIP_REG_RX_HEAD_PTR)
          (host_rx_tail s') \<le>
        rx_bytes_available (BUS_READ_REG rx_frame_then_oversize_state CHIP_REG_RX_HEAD_PTR)
          (host_rx_tail rx_frame_then_oversize_state)) \<and>
   unat (rx_bytes_available (BUS_READ_REG rx_frame_then_oversize_state CHIP_REG_RX_HEAD_PTR)
          ((0 + (ucast (2 :: u16) + PACKET_LENGTH_FIELD_SIZE)) mod RX_BUFFER_SIZE)) =
     unat (rx_bytes_available (BUS_READ_REG rx_frame_then_oversize_state CHIP_REG_RX_HEAD_PTR) 0)
       - (unat (2 :: u16) + 2)"
proof -
  let ?s = rx_frame_then_oversize_state
  have h: "BUS_READ_REG ?s CHIP_REG_RX_HEAD_PTR < RX_BUFFER_SIZE"
    by (simp add: rx_frame_then_oversize_state_def run_defs)
  have t: "host_rx_tail ?s < RX_BUFFER_SIZE"
    by (simp add: rx_frame_then_oversize_state_def run_defs)
  have p: "0 \<noteq> BUS_READ_REG ?s CHIP_REG_RX_HEAD_PTR \<and>
      rx_read_header (ram ?s) 0 = Inr 2 \<and>
      unat (2 :: u16) + 2 \<le> unat (rx_bytes_available (BUS_READ_REG ?s CHIP_REG_RX_HEAD_PTR) 0)"
    by (simp add: rx_frame_then_oversize_state_def run_defs rx_defs)
  note ev = host_chip_process_received_data_frame_then_oversize
  note main = C10_drain_terminates [OF h]
  from main t have a: "\<exists>s' out. host_chip_process_received_data ?s = Some (Inr (s', out)) \<and>
      host_rx_tail s' < RX_BUFFER_SIZE \<and>
      rx_bytes_available (BUS_READ_REG ?s CHIP_REG_RX_HEAD_PTR) (host_rx_tail s') \<le>
        rx_bytes_available (BUS_READ_REG ?s CHIP_REG_RX_HEAD_PTR) (host_rx_tail ?s)"
    by blast
  from main p have b: "unat (rx_bytes_available (BUS_READ_REG ?s CHIP_REG_RX_HEAD_PTR)
          ((0 + (ucast (2 :: u16) + PACKET_LENGTH_FIELD_SIZE)) mod RX_BUFFER_SIZE)) =
     unat (rx_bytes_available (BUS_READ_REG ?s CHIP_REG_RX_HEAD_PTR) 0) - (unat (2 :: u16) + 2)"
    by blast
  from h t p ev a b show ?thesis by blast
qed

section \<open>A header that advertises more than the ring holds\<close>

text \<open>
  The claim C6 asks that for a header with \<open>L > N - 3\<close> the HOST stops draining, reports the
  error through \<open>on_error()\<close> and does not advance its tail. The code has no such report: the
  header of \<open>malformed_state\<close> advertises 65535 bytes, and the whole output of
  \<open>host_chip_process_received_data\<close> is the partial-packet line and the final line; the state
  changes in nothing but the published tail, which is the old one. And the loop stops at such
  a header only because fewer than \<open>L + 2\<close> bytes are available, which a head register
  inside the ring guarantees: in \<open>rx_oversize_head_outside_state\<close> the register holds 65537,
  the frame with the header 65535 at the tail is consumed as a packet, and the tail advances
  to offset 1.
\<close>

theorem C6_no_error_surfaced:
  "rx_read_header (ram malformed_state) (host_rx_tail malformed_state) = Inr 0xFFFF \<and>
   unat RX_BUFFER_SIZE - 3 < unat (0xFFFF :: u16) \<and>
   host_chip_process_received_data malformed_state =
     Some (Inr ((BUS_WRITE_REG malformed_state CHIP_REG_HOST_RX_TAIL_PUB 0)\<lparr>host_rx_tail := 0\<rparr>,
                [HOST_RX_Partial 4 65537, HOST_RX_Finished 0])) \<and>
   \<not> list_ex is_error_report [HOST_RX_Partial 4 65537, HOST_RX_Finished 0] \<and>
   \<not> BUS_READ_REG rx_oversize_head_outside_state CHIP_REG_RX_HEAD_PTR < RX_BUFFER_SIZE \<and>
   host_rx_tail rx_oversize_head_outside_state = 0 \<and>
   rx_read_header (ram rx_oversize_head_outside_state) 0 = Inr 0xFFFF \<and>
   host_chip_process_received_data rx_oversize_head_outside_state =
     Some (Inr ((BUS_WRITE_REG rx_oversize_head_outside_state CHIP_REG_HOST_RX_TAIL_PUB 1)
                  \<lparr>host_rx_tail := 1\<rparr>,
                [HOST_RX_Received 0xFFFF 2 0xFF, HOST_RX_Partial 65536 65537,
                 HOST_RX_Finished 1]))"
proof (intro conjI)
  show "rx_read_header (ram malformed_state) (host_rx_tail malformed_state) = Inr 0xFFFF"
    by (simp add: run_defs rx_defs malformed_state_def)
  show "unat RX_BUFFER_SIZE - 3 < unat (0xFFFF :: u16)"
    by (simp add: RX_BUFFER_SIZE_def)
  show "host_chip_process_received_data malformed_state =
     Some (Inr ((BUS_WRITE_REG malformed_state CHIP_REG_HOST_RX_TAIL_PUB 0)\<lparr>host_rx_tail := 0\<rparr>,
                [HOST_RX_Partial 4 65537, HOST_RX_Finished 0]))"
    apply (simp add: run_defs rx_defs malformed_state_def)
    apply (subst rx_drain_loop.simps)
    apply (simp add: run_defs rx_defs malformed_state_def)
    done
  show "\<not> list_ex is_error_report [HOST_RX_Partial 4 65537, HOST_RX_Finished 0]"
    by simp
  show "\<not> BUS_READ_REG rx_oversize_head_outside_state CHIP_REG_RX_HEAD_PTR < RX_BUFFER_SIZE"
    by (simp add: run_defs rx_oversize_head_outside_state_def)
  show "host_rx_tail rx_oversize_head_outside_state = 0"
    by (simp add: run_defs rx_oversize_head_outside_state_def)
  show "rx_read_header (ram rx_oversize_head_outside_state) 0 = Inr 0xFFFF"
    by (simp add: run_defs rx_defs rx_oversize_head_outside_state_def)
  show "host_chip_process_received_data rx_oversize_head_outside_state =
     Some (Inr ((BUS_WRITE_REG rx_oversize_head_outside_state CHIP_REG_HOST_RX_TAIL_PUB 1)
                  \<lparr>host_rx_tail := 1\<rparr>,
                [HOST_RX_Received 0xFFFF 2 0xFF, HOST_RX_Partial 65536 65537,
                 HOST_RX_Finished 1]))"
    apply (simp add: run_defs rx_defs rx_oversize_head_outside_state_def)
    apply (subst rx_drain_loop.simps)
    apply (simp add: run_defs rx_defs rx_oversize_head_outside_state_def)
    apply (subst rx_drain_loop.simps)
    apply (simp add: run_defs rx_defs rx_oversize_head_outside_state_def)
    done
qed

text \<open>
  C6, as the code has it, for a head register inside the ring. Whatever the ring holds,
  \<open>host_chip_process_received_data\<close> reports no error, and no packet it reports as received
  has a length \<open>L > N - 3\<close>: a frame with such a header is never consumed. The loop reads a
  header after it has consumed the frames before it: the ring holds, from the tail on,
  complete frames of the lengths \<open>Ls\<close> (none, when the header is the first one read), and two
  bytes or more are available where the last of them ends. When the header read there
  advertises \<open>L > N - 3\<close> the loop stops at it, as for a partial frame: the function reports
  the frames \<open>Ls\<close> as received, prints the partial-packet line and the final line, publishes
  the offset of that header as the tail and leaves \<open>host_rx_tail\<close> there (the tail it started
  from, when no frame precedes the header).
\<close>

theorem C6_oversize_header_stops_drain:
  assumes h: "BUS_READ_REG s CHIP_REG_RX_HEAD_PTR < RX_BUFFER_SIZE"
  shows "(\<forall>s' out. host_chip_process_received_data s = Some (Inr (s', out)) \<longrightarrow>
            \<not> list_ex is_error_report out \<and>
            (\<forall>L \<in> set (rx_received out). unat L \<le> unat RX_BUFFER_SIZE - 3)) \<and>
         (\<forall>Ls L. rx_frames_at (ram s) (host_rx_tail s) Ls \<and>
            frames_size Ls + 2 \<le>
              unat (rx_bytes_available (BUS_READ_REG s CHIP_REG_RX_HEAD_PTR) (host_rx_tail s)) \<and>
            rx_read_header (ram s) (last (rx_boundaries (host_rx_tail s) Ls)) = Inr L \<and>
            unat RX_BUFFER_SIZE - 3 < unat L \<longrightarrow>
            (\<exists>msgs. host_chip_process_received_data s =
               Some (Inr ((BUS_WRITE_REG s CHIP_REG_HOST_RX_TAIL_PUB
                             (last (rx_boundaries (host_rx_tail s) Ls)))
                            \<lparr>host_rx_tail := last (rx_boundaries (host_rx_tail s) Ls)\<rparr>,
                          msgs @
                          [HOST_RX_Partial
                             (rx_bytes_available (BUS_READ_REG s CHIP_REG_RX_HEAD_PTR)
                                (last (rx_boundaries (host_rx_tail s) Ls)))
                             (ucast L + PACKET_LENGTH_FIELD_SIZE),
                           HOST_RX_Finished (last (rx_boundaries (host_rx_tail s) Ls))])) \<and>
               rx_received msgs = Ls \<and> length msgs = length Ls))"
proof (rule conjI)
  show "\<forall>s' out. host_chip_process_received_data s = Some (Inr (s', out)) \<longrightarrow>
      \<not> list_ex is_error_report out \<and>
      (\<forall>L \<in> set (rx_received out). unat L \<le> unat RX_BUFFER_SIZE - 3)"
    using host_chip_process_received_data_received_fit [OF h] by blast
next
  show "\<forall>Ls L. rx_frames_at (ram s) (host_rx_tail s) Ls \<and>
      frames_size Ls + 2 \<le>
        unat (rx_bytes_available (BUS_READ_REG s CHIP_REG_RX_HEAD_PTR) (host_rx_tail s)) \<and>
      rx_read_header (ram s) (last (rx_boundaries (host_rx_tail s) Ls)) = Inr L \<and>
      unat RX_BUFFER_SIZE - 3 < unat L \<longrightarrow>
      (\<exists>msgs. host_chip_process_received_data s =
         Some (Inr ((BUS_WRITE_REG s CHIP_REG_HOST_RX_TAIL_PUB
                       (last (rx_boundaries (host_rx_tail s) Ls)))
                      \<lparr>host_rx_tail := last (rx_boundaries (host_rx_tail s) Ls)\<rparr>,
                    msgs @
                    [HOST_RX_Partial
                       (rx_bytes_available (BUS_READ_REG s CHIP_REG_RX_HEAD_PTR)
                          (last (rx_boundaries (host_rx_tail s) Ls)))
                       (ucast L + PACKET_LENGTH_FIELD_SIZE),
                     HOST_RX_Finished (last (rx_boundaries (host_rx_tail s) Ls))])) \<and>
         rx_received msgs = Ls \<and> length msgs = length Ls)"
  proof (intro allI impI)
    fix Ls L
    let ?h = "BUS_READ_REG s CHIP_REG_RX_HEAD_PTR"
    let ?b = "last (rx_boundaries (host_rx_tail s) Ls)"
    assume a: "rx_frames_at (ram s) (host_rx_tail s) Ls \<and>
      frames_size Ls + 2 \<le> unat (rx_bytes_available ?h (host_rx_tail s)) \<and>
      rx_read_header (ram s) ?b = Inr L \<and> unat RX_BUFFER_SIZE - 3 < unat L"
    then have fr: "rx_frames_at (ram s) (host_rx_tail s) Ls"
      and av: "frames_size Ls + 2 \<le> unat (rx_bytes_available ?h (host_rx_tail s))"
      and L: "rx_read_header (ram s) ?b = Inr L"
      and big: "unat RX_BUFFER_SIZE - 3 < unat L"
      by simp_all
    from h have hn: "unat ?h < 4096" by (simp add: unat_less_N)
    have "\<exists>L'. rx_read_header (ram s) (host_rx_tail s) = Inr L'"
      using fr L by (cases Ls) auto
    then have tn: "unat (host_rx_tail s) < 4096"
      by (auto intro: rx_read_header_in_ring)
    from av have u: "frames_size Ls + 2 \<le> ring_used (unat ?h) (unat (host_rx_tail s))"
      using hn tn by (simp add: rx_bytes_available_ring_used)
    from rx_drain_loop_frames_then_oversize [OF hn big tn fr u L, of "[]"]
    obtain msgs where r: "rx_drain_loop s (host_rx_tail s) ?h [] =
        Some (Inr (?b, [] @ msgs @
          [HOST_RX_Partial (rx_bytes_available ?h ?b) (ucast L + PACKET_LENGTH_FIELD_SIZE)]))"
      and m: "rx_received msgs = Ls" "length msgs = length Ls"
      by blast
    from r have "host_chip_process_received_data s =
        Some (Inr ((BUS_WRITE_REG s CHIP_REG_HOST_RX_TAIL_PUB ?b)\<lparr>host_rx_tail := ?b\<rparr>,
          msgs @ [HOST_RX_Partial (rx_bytes_available ?h ?b) (ucast L + PACKET_LENGTH_FIELD_SIZE),
            HOST_RX_Finished ?b]))"
      by (simp add: host_chip_process_received_data_def Let_def BUS_WRITE_REG_def)
    with m show "\<exists>msgs. host_chip_process_received_data s =
        Some (Inr ((BUS_WRITE_REG s CHIP_REG_HOST_RX_TAIL_PUB ?b)\<lparr>host_rx_tail := ?b\<rparr>,
          msgs @ [HOST_RX_Partial (rx_bytes_available ?h ?b) (ucast L + PACKET_LENGTH_FIELD_SIZE),
            HOST_RX_Finished ?b])) \<and>
        rx_received msgs = Ls \<and> length msgs = length Ls"
      by blast
  qed
qed

theorem C6_oversize_header_stops_drain_witness:
  "BUS_READ_REG rx_frame_then_oversize_state CHIP_REG_RX_HEAD_PTR < RX_BUFFER_SIZE \<and>
   rx_frames_at (ram rx_frame_then_oversize_state) (host_rx_tail rx_frame_then_oversize_state) [2] \<and>
   frames_size [2] + 2 \<le>
     unat (rx_bytes_available (BUS_READ_REG rx_frame_then_oversize_state CHIP_REG_RX_HEAD_PTR)
            (host_rx_tail rx_frame_then_oversize_state)) \<and>
   last (rx_boundaries (host_rx_tail rx_frame_then_oversize_state) [2]) = 4 \<and>
   rx_read_header (ram rx_frame_then_oversize_state) 4 = Inr 0xFFFF \<and>
   unat RX_BUFFER_SIZE - 3 < unat (0xFFFF :: u16) \<and>
   host_chip_process_received_data rx_frame_then_oversize_state =
     Some (Inr ((BUS_WRITE_REG rx_frame_then_oversize_state CHIP_REG_HOST_RX_TAIL_PUB 4)
                  \<lparr>host_rx_tail := 4\<rparr>,
                [HOST_RX_Received 2 2 0xAA, HOST_RX_Partial 4 65537, HOST_RX_Finished 4])) \<and>
   \<not> list_ex is_error_report
       [HOST_RX_Received 2 2 0xAA, HOST_RX_Partial 4 65537, HOST_RX_Finished 4] \<and>
   (\<exists>msgs. [HOST_RX_Received 2 2 0xAA, HOST_RX_Partial 4 65537, HOST_RX_Finished 4] =
        msgs @ [HOST_RX_Partial 4 65537, HOST_RX_Finished 4] \<and> rx_received msgs = [2])"
proof -
  let ?s = rx_frame_then_oversize_state
  have h: "BUS_READ_REG ?s CHIP_REG_RX_HEAD_PTR < RX_BUFFER_SIZE"
    by (simp add: rx_frame_then_oversize_state_def run_defs)
  have fr: "rx_frames_at (ram ?s) (host_rx_tail ?s) [2]"
    by (simp add: rx_frame_then_oversize_state_def run_defs rx_defs)
  have av: "frames_size [2] + 2 \<le>
     unat (rx_bytes_available (BUS_READ_REG ?s CHIP_REG_RX_HEAD_PTR) (host_rx_tail ?s))"
    by (simp add: rx_frame_then_oversize_state_def run_defs rx_defs)
  have b: "last (rx_boundaries (host_rx_tail ?s) [2]) = 4"
    by (simp add: rx_frame_then_oversize_state_def run_defs)
  have L: "rx_read_header (ram ?s) 4 = Inr 0xFFFF"
    by (simp add: rx_frame_then_oversize_state_def run_defs rx_defs)
  then have L': "rx_read_header (ram ?s) (last (rx_boundaries (host_rx_tail ?s) [2])) = Inr 0xFFFF"
    unfolding b .
  have big: "unat RX_BUFFER_SIZE - 3 < unat (0xFFFF :: u16)"
    by (simp add: RX_BUFFER_SIZE_def)
  have p: "rx_bytes_available (BUS_READ_REG ?s CHIP_REG_RX_HEAD_PTR) 4 = 4"
    "ucast (0xFFFF :: u16) + PACKET_LENGTH_FIELD_SIZE = (65537 :: u32)"
    by (simp_all add: rx_frame_then_oversize_state_def run_defs rx_defs)
  note ev = host_chip_process_received_data_frame_then_oversize
  note main = C6_oversize_header_stops_drain [OF h]
  from main ev have e: "\<not> list_ex is_error_report
       [HOST_RX_Received 2 2 0xAA, HOST_RX_Partial 4 65537, HOST_RX_Finished 4]"
    by blast
  from main fr av L' big obtain msgs where
    "host_chip_process_received_data ?s =
       Some (Inr ((BUS_WRITE_REG ?s CHIP_REG_HOST_RX_TAIL_PUB
                     (last (rx_boundaries (host_rx_tail ?s) [2])))
                    \<lparr>host_rx_tail := last (rx_boundaries (host_rx_tail ?s) [2])\<rparr>,
                  msgs @
                  [HOST_RX_Partial
                     (rx_bytes_available (BUS_READ_REG ?s CHIP_REG_RX_HEAD_PTR)
                        (last (rx_boundaries (host_rx_tail ?s) [2])))
                     (ucast (0xFFFF :: u16) + PACKET_LENGTH_FIELD_SIZE),
                   HOST_RX_Finished (last (rx_boundaries (host_rx_tail ?s) [2]))]))"
    and m: "rx_received msgs = [2]"
    by blast
  then have "[HOST_RX_Received 2 2 0xAA, HOST_RX_Partial 4 65537, HOST_RX_Finished 4] =
      msgs @ [HOST_RX_Partial 4 65537, HOST_RX_Finished 4]"
    unfolding b p ev by simp
  with m have g: "\<exists>msgs. [HOST_RX_Received 2 2 0xAA, HOST_RX_Partial 4 65537, HOST_RX_Finished 4] =
        msgs @ [HOST_RX_Partial 4 65537, HOST_RX_Finished 4] \<and> rx_received msgs = [2]"
    by blast
  from h fr av b L big ev e g show ?thesis
    by (intro conjI) assumption+
qed

section \<open>Indices stay inside the rings\<close>

text \<open>
  C4 (index-range invariant). From a state whose eight indices (the four local ones and the
  four registers) are in \<open>[0, N)\<close>, each of \<open>host_chip_send_packet\<close>,
  \<open>host_chip_process_received_data\<close>, \<open>chip_emulator_process_tx\<close> and
  \<open>chip_emulator_generate_rx\<close>, when it returns, leaves them in \<open>[0, N)\<close>; the initial state
  is such a state (lemma \<open>idx_inv_init_state\<close>). In such a state the used count of each ring,
  as the code computes it from the local or from the published head, is the spec's
  \<open>(head - tail) mod N\<close> and is at most \<open>N - 1\<close>.
\<close>

theorem C4_indices_stay_in_range:
  assumes inv: "idx_inv s"
  shows "(\<forall>data len rc s' out.
            host_chip_send_packet s data len = Inr (rc, s', out) \<longrightarrow> idx_inv s') \<and>
         (\<forall>s' out. host_chip_process_received_data s = Some (Inr (s', out)) \<longrightarrow> idx_inv s') \<and>
         (\<forall>s' out. chip_emulator_process_tx s = Inr (s', out) \<longrightarrow> idx_inv s') \<and>
         (\<forall>rnd s' out. chip_emulator_generate_rx s rnd = Inr (s', out) \<longrightarrow> idx_inv s') \<and>
         tx_data_available (host_tx_head s) (chip_tx_tail s) \<le> TX_BUFFER_SIZE - 1 \<and>
         uint (tx_data_available (host_tx_head s) (chip_tx_tail s)) =
           used_spec (host_tx_head s) (chip_tx_tail s) \<and>
         tx_data_available (BUS_READ_REG s CHIP_REG_HOST_TX_HEAD_PUB) (chip_tx_tail s)
           \<le> TX_BUFFER_SIZE - 1 \<and>
         uint (tx_data_available (BUS_READ_REG s CHIP_REG_HOST_TX_HEAD_PUB) (chip_tx_tail s)) =
           used_spec (BUS_READ_REG s CHIP_REG_HOST_TX_HEAD_PUB) (chip_tx_tail s) \<and>
         rx_bytes_available (chip_rx_head s) (host_rx_tail s) \<le> RX_BUFFER_SIZE - 1 \<and>
         uint (rx_bytes_available (chip_rx_head s) (host_rx_tail s)) =
           used_spec (chip_rx_head s) (host_rx_tail s) \<and>
         rx_bytes_available (BUS_READ_REG s CHIP_REG_RX_HEAD_PTR) (host_rx_tail s)
           \<le> RX_BUFFER_SIZE - 1 \<and>
         uint (rx_bytes_available (BUS_READ_REG s CHIP_REG_RX_HEAD_PTR) (host_rx_tail s)) =
           used_spec (BUS_READ_REG s CHIP_REG_RX_HEAD_PTR) (host_rx_tail s)"
proof -
  have N: "TX_BUFFER_SIZE = RX_BUFFER_SIZE"
    by (simp add: TX_BUFFER_SIZE_def RX_BUFFER_SIZE_def)
  from inv have i:
    "host_tx_head s < RX_BUFFER_SIZE" "chip_tx_tail s < RX_BUFFER_SIZE"
    "BUS_READ_REG s CHIP_REG_HOST_TX_HEAD_PUB < RX_BUFFER_SIZE"
    "chip_rx_head s < RX_BUFFER_SIZE" "host_rx_tail s < RX_BUFFER_SIZE"
    "BUS_READ_REG s CHIP_REG_RX_HEAD_PTR < RX_BUFFER_SIZE"
    by (simp_all add: idx_inv_def N)
  show ?thesis
    using send_idx_inv [OF inv] drain_idx_inv [OF inv] process_tx_idx_inv [OF inv]
      generate_rx_idx_inv [OF inv]
      used_in_range [OF i(1) i(2)] used_in_range [OF i(3) i(2)]
      used_in_range [OF i(4) i(5)] used_in_range [OF i(6) i(5)]
    by (simp only: tx_data_available_eq N) blast
qed

theorem C4_indices_stay_in_range_witness:
  "idx_inv init_state \<and>
   (\<exists>s' out. host_chip_send_packet init_state [1, 2, 3, 4] 4 = Inr (0, s', out) \<and> idx_inv s') \<and>
   (\<exists>s' out. host_chip_process_received_data init_state = Some (Inr (s', out)) \<and> idx_inv s') \<and>
   (\<exists>s' out. chip_emulator_process_tx init_state = Inr (s', out) \<and> idx_inv s') \<and>
   (\<exists>s' out. chip_emulator_generate_rx init_state (\<lambda>_. 0) = Inr (s', out) \<and>
      out \<noteq> [] \<and> idx_inv s') \<and>
   rx_bytes_available (chip_rx_head init_state) (host_rx_tail init_state) \<le> RX_BUFFER_SIZE - 1"
proof -
  have a: "\<exists>s' out. host_chip_send_packet init_state [1, 2, 3, 4] 4 = Inr (0, s', out)"
    by (simp add: run_defs)
  have b: "\<exists>s' out. host_chip_process_received_data init_state = Some (Inr (s', out))"
    apply (simp add: run_defs rx_defs)
    apply (subst rx_drain_loop.simps)
    apply (simp add: run_defs rx_defs)
    done
  have c: "\<exists>s' out. chip_emulator_process_tx init_state = Inr (s', out)"
    by (simp add: run_defs)
  have d: "\<exists>s' out. chip_emulator_generate_rx init_state (\<lambda>_. 0) = Inr (s', out) \<and> out \<noteq> []"
    by (simp add: run_defs chip_emulator_generate_rx_def
        rx_simulated_payload_len_def rx_write_payload_def rx_fill_result)
  note i = C4_indices_stay_in_range [OF idx_inv_init_state]
  from a obtain s1 o1 where a1: "host_chip_send_packet init_state [1, 2, 3, 4] 4 = Inr (0, s1, o1)"
    by blast
  with i have a2: "idx_inv s1" by blast
  from b obtain s2 o2 where b1: "host_chip_process_received_data init_state = Some (Inr (s2, o2))"
    by blast
  with i have b2: "idx_inv s2" by blast
  from c obtain s3 o3 where c1: "chip_emulator_process_tx init_state = Inr (s3, o3)"
    by blast
  with i have c2: "idx_inv s3" by blast
  from d obtain s4 o4 where d1: "chip_emulator_generate_rx init_state (\<lambda>_. 0) = Inr (s4, o4)"
    and d3: "o4 \<noteq> []"
    by blast
  with i have d2: "idx_inv s4" by blast
  from i have u: "rx_bytes_available (chip_rx_head init_state) (host_rx_tail init_state)
      \<le> RX_BUFFER_SIZE - 1"
    by simp
  show ?thesis
    using idx_inv_init_state a1 a2 b1 b2 c1 c2 d1 d2 d3 u by (intro conjI exI) assumption+
qed

section \<open>The size check of the send function\<close>

text \<open>
  C3 (error contract of \<open>host_chip_send_packet\<close>). The claim asks for -1 exactly when
  \<open>L + 2 > TX_BUFFER_SIZE\<close>. The function computes \<open>len + 2\<close> in 32 bits, so for
  \<open>len = 2^32 - 1\<close> the sum is 1: the size check and the space check pass, the header is
  stored and \<open>memcpy\<close> is called for \<open>2^32 - 1\<close> bytes, far beyond the shared RAM
  (\<open>len = 2^32 - 2\<close> behaves alike). For every other length the contract holds: lemma
  \<open>host_chip_send_packet_contract\<close>.
\<close>

theorem C3_length_overflow_passes_size_check:
  "unat TX_BUFFER_SIZE < unat (0xFFFFFFFF :: u32) + 2 \<and>
   (0xFFFFFFFF :: u32) + PACKET_LENGTH_FIELD_SIZE = 1 \<and>
   host_chip_send_packet init_state data 0xFFFFFFFF = Inl OutOfBounds"
  by (simp add: run_defs)


section \<open>The consumer and the frames of the producer\<close>

text \<open>
  On the ring as the consumer reads it, with the head register and the tail inside the ring:
  if fewer than two bytes are available, or fewer than \<open>L + 2\<close> for the length \<open>L\<close> the header
  advertises, \<open>host_chip_process_received_data\<close> reports no packet and publishes the tail it
  started with. And when the ring holds, from the tail on, frames of the lengths \<open>Ls\<close> that
  reach at least as far as the head, the tail the function publishes is one of the boundaries
  of these frames, the \<open>k\<close>-th, and the packets it reports are the first \<open>k\<close> frames in order:
  the frames that are complete below the head, so that the tail does not pass the head and the
  frame after them, if any, is not complete. When the head stands at the end of the last
  frame the tail is the last boundary, the head.
\<close>

lemma host_chip_process_received_data_frame_boundaries:
  assumes h: "BUS_READ_REG s CHIP_REG_RX_HEAD_PTR < RX_BUFFER_SIZE"
    and t: "host_rx_tail s < RX_BUFFER_SIZE"
  shows
    "(rx_bytes_available (BUS_READ_REG s CHIP_REG_RX_HEAD_PTR) (host_rx_tail s)
        < PACKET_LENGTH_FIELD_SIZE \<or>
      (\<exists>L. rx_read_header (ram s) (host_rx_tail s) = Inr L \<and>
         rx_bytes_available (BUS_READ_REG s CHIP_REG_RX_HEAD_PTR) (host_rx_tail s)
           < ucast L + PACKET_LENGTH_FIELD_SIZE) \<longrightarrow>
      (\<exists>out. host_chip_process_received_data s =
          Some (Inr ((BUS_WRITE_REG s CHIP_REG_HOST_RX_TAIL_PUB (host_rx_tail s))
                       \<lparr>host_rx_tail := host_rx_tail s\<rparr>, out)) \<and>
         rx_received out = [])) \<and>
     (\<forall>Ls. rx_frames_at (ram s) (host_rx_tail s) Ls \<and>
        unat (rx_bytes_available (BUS_READ_REG s CHIP_REG_RX_HEAD_PTR) (host_rx_tail s))
          \<le> frames_size Ls \<longrightarrow>
        (\<exists>k s' out. k \<le> length Ls \<and>
           host_chip_process_received_data s = Some (Inr (s', out)) \<and>
           host_rx_tail s' = rx_boundaries (host_rx_tail s) Ls ! k \<and>
           BUS_READ_REG s' CHIP_REG_HOST_RX_TAIL_PUB = host_rx_tail s' \<and>
           rx_received out = take k Ls \<and>
           frames_size (take k Ls) \<le>
             unat (rx_bytes_available (BUS_READ_REG s CHIP_REG_RX_HEAD_PTR) (host_rx_tail s)) \<and>
           (k < length Ls \<longrightarrow>
              unat (rx_bytes_available (BUS_READ_REG s CHIP_REG_RX_HEAD_PTR) (host_rx_tail s))
                - frames_size (take k Ls) < unat (Ls ! k) + 2) \<and>
           (unat (rx_bytes_available (BUS_READ_REG s CHIP_REG_RX_HEAD_PTR) (host_rx_tail s))
              = frames_size Ls \<longrightarrow>
            k = length Ls \<and> host_rx_tail s' = BUS_READ_REG s CHIP_REG_RX_HEAD_PTR)))"
proof (intro conjI allI impI)
  let ?h = "BUS_READ_REG s CHIP_REG_RX_HEAD_PTR"
  let ?t = "host_rx_tail s"
  from h have hn: "unat ?h < 4096" by (simp add: unat_less_N)
  from t have tn: "unat ?t < 4096" by (simp add: unat_less_N)
  note step = rx_drain_loop_step [OF tn hn, of s "[]"]
  assume a: "rx_bytes_available ?h ?t < PACKET_LENGTH_FIELD_SIZE \<or>
      (\<exists>L. rx_read_header (ram s) ?t = Inr L \<and>
         rx_bytes_available ?h ?t < ucast L + PACKET_LENGTH_FIELD_SIZE)"
  have "\<exists>out. rx_drain_loop s ?t ?h [] = Some (Inr (?t, out)) \<and> rx_received out = []"
  proof (cases "?t = ?h \<or> ring_used (unat ?h) (unat ?t) < 2")
    case True
    then show ?thesis by (auto simp: step)
  next
    case False
    with a obtain L where L: "rx_read_header (ram s) ?t = Inr L"
      and p: "rx_bytes_available ?h ?t < ucast L + PACKET_LENGTH_FIELD_SIZE"
      using hn tn by (auto simp: word_less_nat_alt rx_bytes_available_ring_used unat_FIELD)
    from p have "ring_used (unat ?h) (unat ?t) < unat L + 2"
      using hn tn by (simp add: word_less_nat_alt rx_bytes_available_ring_used
          unat_total_packet_len)
    then show ?thesis
      using False by (simp add: step L)
  qed
  then show "\<exists>out. host_chip_process_received_data s =
      Some (Inr ((BUS_WRITE_REG s CHIP_REG_HOST_RX_TAIL_PUB ?t)\<lparr>host_rx_tail := ?t\<rparr>, out)) \<and>
      rx_received out = []"
    by (auto simp: host_chip_process_received_data_def Let_def rx_received_append)
next
  fix Ls
  let ?h = "BUS_READ_REG s CHIP_REG_RX_HEAD_PTR"
  let ?t = "host_rx_tail s"
  from h have hn: "unat ?h < 4096" by (simp add: unat_less_N)
  from t have tn: "unat ?t < 4096" by (simp add: unat_less_N)
  assume a: "rx_frames_at (ram s) ?t Ls \<and> unat (rx_bytes_available ?h ?t) \<le> frames_size Ls"
  have u: "unat (rx_bytes_available ?h ?t) = ring_used (unat ?h) (unat ?t)"
    using hn tn by (rule rx_bytes_available_ring_used)
  from a have fr: "rx_frames_at (ram s) ?t Ls"
    and le: "ring_used (unat ?h) (unat ?t) \<le> frames_size Ls"
    by (simp_all add: u)
  from rx_drain_loop_frames [OF hn tn fr le, of "[]"]
  obtain k out' where k: "k \<le> length Ls"
    and r: "rx_drain_loop s ?t ?h [] = Some (Inr (rx_boundaries ?t Ls ! k, out'))"
    and rc: "rx_received out' = take k Ls"
    and fs: "frames_size (take k Ls) \<le> ring_used (unat ?h) (unat ?t)"
    and nx: "k < length Ls \<longrightarrow>
        ring_used (unat ?h) (unat ?t) - frames_size (take k Ls) < unat (Ls ! k) + 2"
    and ex: "ring_used (unat ?h) (unat ?t) = frames_size Ls \<longrightarrow>
        k = length Ls \<and> rx_boundaries ?t Ls ! k = ?h"
    by auto
  let ?s' = "(BUS_WRITE_REG s CHIP_REG_HOST_RX_TAIL_PUB (rx_boundaries ?t Ls ! k))
      \<lparr>host_rx_tail := rx_boundaries ?t Ls ! k\<rparr>"
  have 1: "host_chip_process_received_data s =
      Some (Inr (?s', out' @ [HOST_RX_Finished (rx_boundaries ?t Ls ! k)]))"
    by (simp add: host_chip_process_received_data_def r Let_def)
  have 2: "BUS_READ_REG ?s' CHIP_REG_HOST_RX_TAIL_PUB = host_rx_tail ?s'"
    by (simp add: reg_defs)
  have 3: "rx_received (out' @ [HOST_RX_Finished (rx_boundaries ?t Ls ! k)]) = take k Ls"
    by (simp add: rx_received_append rc)
  show "\<exists>k s' out. k \<le> length Ls \<and>
      host_chip_process_received_data s = Some (Inr (s', out)) \<and>
      host_rx_tail s' = rx_boundaries ?t Ls ! k \<and>
      BUS_READ_REG s' CHIP_REG_HOST_RX_TAIL_PUB = host_rx_tail s' \<and>
      rx_received out = take k Ls \<and>
      frames_size (take k Ls) \<le> unat (rx_bytes_available ?h ?t) \<and>
      (k < length Ls \<longrightarrow>
         unat (rx_bytes_available ?h ?t) - frames_size (take k Ls) < unat (Ls ! k) + 2) \<and>
      (unat (rx_bytes_available ?h ?t) = frames_size Ls \<longrightarrow>
       k = length Ls \<and> host_rx_tail s' = ?h)"
    using k 1 2 3 fs nx ex unfolding u
    by (intro exI [of _ k] exI [of _ ?s']
        exI [of _ "out' @ [HOST_RX_Finished (rx_boundaries ?t Ls ! k)]"]) auto
qed

lemmas gen_defs = chip_emulator_generate_rx_def rx_simulated_payload_len_def
  rx_write_payload_def rx_fill_result

text \<open>
  C5 (frame atomicity to the consumer). The claim asks that the tail
  \<open>host_chip_process_received_data\<close> publishes always lies on a boundary of the frames the
  producer wrote. In the run below \<open>chip_emulator_generate_rx\<close> writes one frame of 10 payload
  bytes into the empty RX ring: header at offset 0, boundaries 0 and 12. The HOST then sends a
  frame that brings the TX head to 4095, the CHIP consumes it, and the HOST sends 257 bytes:
  the 16-bit store of that header at TX offset 4095 puts its high byte, 1, into the first byte
  of the RX ring, over the low byte of the producer's header. The consumer now reads the
  length 1 at offset 0, reports a packet of one byte, meets a partial frame at offset 3 and
  publishes the tail 3, inside the producer's frame.
\<close>

theorem C5_tail_off_producer_frame_boundary:
  "\<exists>s1 s2 o2 s3 o3 s4 o4 s5.
     chip_emulator_generate_rx init_state (\<lambda>i. if i = 0 then 0 else 255) =
       Inr (s1, [CHIP_EMU_RX_Generated 10 12]) \<and>
     rx_ring_holds s1 [10] \<and>
     rx_read_header (ram s1) 0 = Inr 10 \<and>
     rx_boundaries (host_rx_tail s1) [10] = [0, 12] \<and>
     host_chip_send_packet s1 (replicate 4093 0) 4093 = Inr (0, s2, o2) \<and>
     chip_emulator_process_tx s2 = Inr (s3, o3) \<and>
     host_tx_head s3 = TX_BUFFER_SIZE - 1 \<and>
     host_chip_send_packet s3 (replicate 257 0) 257 = Inr (0, s4, o4) \<and>
     rx_read_header (ram s4) 0 = Inr 1 \<and>
     host_rx_tail s4 = 0 \<and> BUS_READ_REG s4 CHIP_REG_RX_HEAD_PTR = 12 \<and>
     host_chip_process_received_data s4 =
       Some (Inr (s5, [HOST_RX_Received 1 2 0xFF, HOST_RX_Partial 9 65537, HOST_RX_Finished 3])) \<and>
     host_rx_tail s5 = 3 \<and>
     BUS_READ_REG s5 CHIP_REG_HOST_RX_TAIL_PUB = 3 \<and>
     host_rx_tail s5 \<notin> set (rx_boundaries (host_rx_tail s1) [10])"
  apply (simp add: run_defs gen_defs rx_defs rx_ring_holds_def ring_used_def)
  apply (subst rx_drain_loop.simps)
  apply (simp add: run_defs rx_defs)
  apply (subst rx_drain_loop.simps)
  apply (simp add: run_defs rx_defs)
  done

end
